theory Spec2Isabelle
  imports Main "HOL-Library.Word"
begin

section \<open>JavaScript strings\<close>

text \<open>
  A JavaScript string is a sequence of UTF-16 code units. The regular expression of
  \<open>markdownToHtml\<close> has no \<open>u\<close> flag and \<open>split\<close>, \<open>trim\<close>, \<open>startsWith\<close> and
  \<open>substring\<close> all work on code units, so a string is modelled as a list of 16-bit words.
  \<open>js\<close> turns an ASCII literal of the source into such a list.
\<close>

type_synonym jschar = "16 word"
type_synonym jsstring = "jschar list"

definition js :: "string \<Rightarrow> jsstring" where
  "js s = map of_char s"

definition star :: jschar where
  "star = 0x2A"

definition space :: jschar where
  "space = 0x20"

definition newline :: jschar where
  "newline = 0x0A"

text \<open>
  ECMAScript \<open>LineTerminator\<close>: LF, CR, LS, PS. The \<open>.\<close> of a regular expression
  without the \<open>s\<close> flag matches every code unit but these.
\<close>

definition isLineTerminator :: "jschar \<Rightarrow> bool" where
  "isLineTerminator c \<longleftrightarrow> c = 0x000A \<or> c = 0x000D \<or> c = 0x2028 \<or> c = 0x2029"

text \<open>
  ECMAScript \<open>WhiteSpace\<close>: TAB, VT, FF, ZWNBSP and the code points of category Zs
  (SP, NBSP, U+1680, U+2000 to U+200A, U+202F, U+205F, U+3000).
\<close>

definition isWhiteSpace :: "jschar \<Rightarrow> bool" where
  "isWhiteSpace c \<longleftrightarrow>
     c = 0x0009 \<or> c = 0x000B \<or> c = 0x000C \<or> c = 0x0020 \<or> c = 0x00A0 \<or> c = 0x1680 \<or>
     (0x2000 \<le> c \<and> c \<le> 0x200A) \<or> c = 0x202F \<or> c = 0x205F \<or> c = 0x3000 \<or> c = 0xFEFF"

text \<open>\<open>String.prototype.trim\<close> strips white space and line terminators from both ends.\<close>

definition isTrimmed :: "jschar \<Rightarrow> bool" where
  "isTrimmed c \<longleftrightarrow> isWhiteSpace c \<or> isLineTerminator c"

definition trim :: "jsstring \<Rightarrow> jsstring" where
  "trim s = rev (dropWhile isTrimmed (rev (dropWhile isTrimmed s)))"

text \<open>\<open>s.split('\n')\<close>: the pieces between line feeds, with \<open>cur\<close> the piece being read.\<close>

fun split_acc :: "jsstring \<Rightarrow> jsstring \<Rightarrow> jsstring list" where
  "split_acc cur [] = [cur]"
| "split_acc cur (c # cs) =
     (if c = newline then cur # split_acc [] cs else split_acc (cur @ [c]) cs)"

definition split_lines :: "jsstring \<Rightarrow> jsstring list" where
  "split_lines s = split_acc [] s"

text \<open>\<open>line.startsWith('* ')\<close>\<close>

definition startsWithBullet :: "jsstring \<Rightarrow> bool" where
  "startsWithBullet line \<longleftrightarrow> take 2 line = [star, space]"

section \<open>chatbot.js: markdownToHtml\<close>

subsection \<open>The replacement of bold spans\<close>

text \<open>
  \<open>text.replace(/\*\*(.+?)\*\*/g, '<strong>$1</strong>')\<close>.
  \<open>lazy_body acc s\<close> is the lazy group \<open>(.+?)\<close> followed by the closing \<open>\*\*\<close>, run on the
  text \<open>s\<close> after an opening \<open>\*\*\<close>: it takes one code unit that is no line terminator,
  then tries the closing stars, and takes one more code unit each time they are not there.
  It returns the captured group and the text after the match.
\<close>

fun lazy_body :: "jsstring \<Rightarrow> jsstring \<Rightarrow> (jsstring \<times> jsstring) option" where
  "lazy_body acc [] = None"
| "lazy_body acc (c # cs) =
     (if isLineTerminator c then None
      else if take 2 cs = [star, star] then Some (acc @ [c], drop 2 cs)
      else lazy_body (acc @ [c]) cs)"

text \<open>A match of the whole expression at the head of \<open>s\<close>.\<close>

definition match_bold :: "jsstring \<Rightarrow> (jsstring \<times> jsstring) option" where
  "match_bold s = (if take 2 s = [star, star] then lazy_body [] (drop 2 s) else None)"

lemma lazy_body_shorter:
  "lazy_body acc s = Some (cap, rest) \<Longrightarrow> length rest < length s"
proof (induction s arbitrary: acc)
  case Nil
  then show ?case by simp
next
  case (Cons c cs)
  show ?case
  proof (cases "take 2 cs = [star, star]")
    case True
    with Cons.prems show ?thesis by (auto split: if_splits)
  next
    case False
    with Cons.prems have "lazy_body (acc @ [c]) cs = Some (cap, rest)"
      by (auto split: if_splits)
    from Cons.IH [OF this] show ?thesis by simp
  qed
qed

lemma match_bold_shorter:
  "match_bold s = Some (cap, rest) \<Longrightarrow> length rest < length s"
  by (auto simp: match_bold_def split: if_splits dest!: lazy_body_shorter)

definition strong_open :: jsstring where
  "strong_open = js ''<strong>''"

definition strong_close :: jsstring where
  "strong_close = js ''</strong>''"

text \<open>
  The global replacement scans from the left: where the expression matches, the match is
  replaced and the scan goes on after it; elsewhere the code unit is copied.
\<close>

function replace_bold :: "jsstring \<Rightarrow> jsstring" where
  "replace_bold [] = []"
| "replace_bold (c # cs) =
     (case match_bold (c # cs) of
        Some (cap, rest) \<Rightarrow> strong_open @ cap @ strong_close @ replace_bold rest
      | None \<Rightarrow> c # replace_bold cs)"
  by pat_completeness auto
termination
  by (relation "measure length") (auto dest: match_bold_shorter)

subsection \<open>The loop over the lines\<close>

definition ul_open :: jsstring where
  \<open>ul_open = js ''<ul style="margin: 10px 0; padding-left: 20px;">''\<close>

definition ul_close :: jsstring where
  "ul_close = js ''</ul>''"

definition li_open :: jsstring where
  \<open>li_open = js ''<li style="margin: 5px 0;">''\<close>

definition li_close :: jsstring where
  "li_close = js ''</li>''"

definition p_open :: jsstring where
  \<open>p_open = js ''<p style="margin: 5px 0;">''\<close>

definition p_close :: jsstring where
  "p_close = js ''</p>''"

text \<open>
  One iteration of the \<open>for\<close> loop, on the state \<open>(inList, html)\<close> and the line
  \<open>lines[i]\<close>.
\<close>

definition render_line :: "bool \<times> jsstring \<Rightarrow> jsstring \<Rightarrow> bool \<times> jsstring" where
  "render_line st raw =
     (let inList = fst st; html = snd st; line = trim raw in
      if startsWithBullet line then
        (let html1 = (if \<not> inList then html @ ul_open else html);
             listItem = trim (drop 2 line)
         in (True, html1 @ li_open @ listItem @ li_close))
      else
        (let html1 = (if inList then html @ ul_close else html)
         in (False, if line \<noteq> [] then html1 @ p_open @ line @ p_close else html1)))"

fun render_lines :: "bool \<times> jsstring \<Rightarrow> jsstring list \<Rightarrow> bool \<times> jsstring" where
  "render_lines st [] = st"
| "render_lines st (raw # rest) = render_lines (render_line st raw) rest"

text \<open>
  \<open>markdownToHtml(text)\<close>. The argument is \<open>None\<close> when the caller passes \<open>undefined\<close> or
  \<open>null\<close> (a response without text); \<open>!text\<close> holds for these and for the empty string.
\<close>

definition markdownToHtml :: "jsstring option \<Rightarrow> jsstring" where
  "markdownToHtml arg =
     (case arg of
        None \<Rightarrow> []
      | Some text \<Rightarrow>
          if text = [] then []
          else (let st = render_lines (False, []) (split_lines (replace_bold text))
                in if fst st then snd st @ ul_close else snd st))"

subsection \<open>Predicates on the input\<close>

text \<open>
  \<open>has_bold_span s\<close>: the regular expression matches somewhere in \<open>s\<close>.
  \<open>has_bullet_line s\<close>: some line of \<open>s\<close> starts, once trimmed, with \<open>* \<close>.
  \<open>wrap_p l\<close>: the paragraph the loop emits for the trimmed line \<open>l\<close>.
  \<open>close_list st\<close>: the markup after a list that is open in the loop state \<open>st\<close> has
  been closed.
\<close>

fun has_bold_span :: "jsstring \<Rightarrow> bool" where
  "has_bold_span [] = False"
| "has_bold_span (c # cs) = (match_bold (c # cs) \<noteq> None \<or> has_bold_span cs)"

definition has_bullet_line :: "jsstring \<Rightarrow> bool" where
  "has_bullet_line s = list_ex (\<lambda>l. startsWithBullet (trim l)) (split_lines s)"

definition wrap_p :: "jsstring \<Rightarrow> jsstring" where
  "wrap_p l = p_open @ l @ p_close"

definition close_list :: "bool \<times> jsstring \<Rightarrow> jsstring" where
  "close_list st = (if fst st then snd st @ ul_close else snd st)"

definition rtrim :: "jsstring \<Rightarrow> jsstring" where
  "rtrim s = rev (dropWhile isTrimmed (rev s))"

subsection \<open>Lines and bold spans\<close>

lemma split_acc_nonempty: "split_acc cur s \<noteq> []"
  by (induction s arbitrary: cur) auto

lemma replace_bold_no_span: "\<not> has_bold_span s \<Longrightarrow> replace_bold s = s"
  by (induction s) (auto split: option.splits)

lemma render_lines_plain:
  "\<forall>l \<in> set ls. \<not> startsWithBullet (trim l) \<Longrightarrow>
   render_lines (False, html) ls =
     (False, html @ concat (map (\<lambda>l. wrap_p (trim l)) (filter (\<lambda>l. trim l \<noteq> []) ls)))"
  by (induction ls arbitrary: html) (auto simp: render_line_def wrap_p_def)

lemma split_acc_no_newline: "newline \<notin> set s \<Longrightarrow> split_acc cur s = [cur @ s]"
  by (induction s arbitrary: cur) auto

lemma split_acc_newline:
  "newline \<notin> set l \<Longrightarrow> split_acc cur (l @ newline # rest) = (cur @ l) # split_acc [] rest"
  by (induction l arbitrary: cur) auto

lemma newline_facts [simp]: "newline \<noteq> star" "isLineTerminator newline" "isTrimmed newline"
  by (simp_all add: newline_def star_def isLineTerminator_def isTrimmed_def)

lemma take2_stars_append:
  "newline \<notin> set s \<Longrightarrow>
   take 2 (s @ newline # rest) = [star, star] \<longleftrightarrow> take 2 s = [star, star]"
  by (cases s; cases "tl s") auto

lemma drop2_stars_append:
  "take 2 s = [star, star] \<Longrightarrow> drop 2 (s @ t) = drop 2 s @ t"
  by (cases s; cases "tl s") auto

lemma lazy_body_line:
  "newline \<notin> set s \<Longrightarrow>
   lazy_body acc (s @ newline # rest) =
     map_option (\<lambda>(cap, r). (cap, r @ newline # rest)) (lazy_body acc s)"
  by (induction s arbitrary: acc)
     (auto simp: take2_stars_append drop2_stars_append simp del: take_append drop_append)

lemma match_bold_line:
  "newline \<notin> set s \<Longrightarrow>
   match_bold (s @ newline # rest) =
     map_option (\<lambda>(cap, r). (cap, r @ newline # rest)) (match_bold s)"
proof -
  assume a: "newline \<notin> set s"
  show ?thesis
  proof (cases "take 2 s = [star, star]")
    case True
    with a have "newline \<notin> set (drop 2 s)" by (auto dest: in_set_dropD)
    with True a show ?thesis
      by (simp add: match_bold_def take2_stars_append drop2_stars_append lazy_body_line
               del: take_append drop_append)
  next
    case False
    with a show ?thesis
      by (simp add: match_bold_def take2_stars_append del: take_append drop_append)
  qed
qed

lemma lazy_body_suffix:
  "lazy_body acc s = Some (cap, rest) \<Longrightarrow> set rest \<subseteq> set s"
proof (induction s arbitrary: acc)
  case Nil
  then show ?case by simp
next
  case (Cons c cs)
  show ?case
  proof (cases "take 2 cs = [star, star]")
    case True
    with Cons.prems have "rest = drop 2 cs" by (auto split: if_splits)
    then show ?thesis by (auto dest: in_set_dropD)
  next
    case False
    with Cons.prems have "lazy_body (acc @ [c]) cs = Some (cap, rest)"
      by (auto split: if_splits)
    from Cons.IH [OF this] show ?thesis by auto
  qed
qed

lemma match_bold_suffix:
  "match_bold s = Some (cap, rest) \<Longrightarrow> set rest \<subseteq> set s"
  by (auto simp: match_bold_def split: if_splits dest!: lazy_body_suffix in_set_dropD)

lemma replace_bold_line:
  "newline \<notin> set s \<Longrightarrow>
   replace_bold (s @ newline # rest) = replace_bold s @ newline # replace_bold rest"
proof (induction s rule: replace_bold.induct)
  case 1
  have "match_bold (newline # rest) = None" by (simp add: match_bold_def)
  then show ?case by simp
next
  case (2 c cs)
  have line: "match_bold ((c # cs) @ newline # rest) =
      map_option (\<lambda>(cap, r). (cap, r @ newline # rest)) (match_bold (c # cs))"
    using "2.prems" by (rule match_bold_line)
  show ?case
  proof (cases "match_bold (c # cs)")
    case None
    with line have "match_bold (c # cs @ newline # rest) = None" by simp
    moreover from "2.prems" have "newline \<notin> set cs" by simp
    ultimately show ?thesis using None "2.IH"(1) by simp
  next
    case (Some m)
    obtain cap r where m: "m = (cap, r)" by (cases m)
    with Some line have
      big: "match_bold (c # cs @ newline # rest) = Some (cap, r @ newline # rest)"
      by simp
    from Some m "2.prems" have "newline \<notin> set r"
      by (auto dest!: match_bold_suffix)
    with "2.IH"(2) [OF Some m [symmetric]] have
      "replace_bold (r @ newline # rest) = replace_bold r @ newline # replace_bold rest"
      by simp
    with Some m big show ?thesis by simp
  qed
qed

lemma lazy_body_capture:
  "lazy_body acc s = Some (cap, rest) \<Longrightarrow> set cap \<subseteq> set acc \<union> set s"
proof (induction s arbitrary: acc)
  case Nil
  then show ?case by simp
next
  case (Cons c cs)
  show ?case
  proof (cases "take 2 cs = [star, star]")
    case True
    with Cons.prems have "cap = acc @ [c]" by (auto split: if_splits)
    then show ?thesis by auto
  next
    case False
    with Cons.prems have "lazy_body (acc @ [c]) cs = Some (cap, rest)"
      by (auto split: if_splits)
    from Cons.IH [OF this] show ?thesis by auto
  qed
qed

lemma match_bold_capture:
  "match_bold s = Some (cap, rest) \<Longrightarrow> set cap \<subseteq> set s"
  by (auto simp: match_bold_def split: if_splits dest!: lazy_body_capture in_set_dropD)

lemma newline_notin_strong [simp]:
  "newline \<notin> set strong_open" "newline \<notin> set strong_close"
  by (simp_all add: strong_open_def strong_close_def js_def newline_def)

lemma replace_bold_keeps_line:
  "newline \<notin> set s \<Longrightarrow> newline \<notin> set (replace_bold s)"
proof (induction s rule: replace_bold.induct)
  case 1
  then show ?case by simp
next
  case (2 c cs)
  show ?case
  proof (cases "match_bold (c # cs)")
    case None
    with 2 show ?thesis by simp
  next
    case (Some m)
    obtain cap r where m: "m = (cap, r)" by (cases m)
    from Some m have mb: "match_bold (c # cs) = Some (cap, r)" by simp
    from match_bold_suffix [OF mb] match_bold_capture [OF mb] "2.prems" have "newline \<notin> set r" "newline \<notin> set cap"
      by auto
    with "2.IH"(2) [OF Some m [symmetric]] Some m show ?thesis by simp
  qed
qed

lemma first_newline:
  "newline \<in> set s \<Longrightarrow> \<exists>l rest. s = l @ newline # rest \<and> newline \<notin> set l"
  by (metis split_list_first)

lemma split_lines_replace_bold:
  "split_lines (replace_bold s) = map replace_bold (split_lines s)"
proof (induction "length s" arbitrary: s rule: less_induct)
  case less
  show ?case
  proof (cases "newline \<in> set s")
    case False
    then show ?thesis
      by (simp add: split_lines_def split_acc_no_newline replace_bold_keeps_line)
  next
    case True
    then obtain l rest where s: "s = l @ newline # rest" and l: "newline \<notin> set l"
      using first_newline by blast
    have "split_lines (replace_bold rest) = map replace_bold (split_lines rest)"
      using less [of rest] s by simp
    with s l show ?thesis
      by (simp add: split_lines_def replace_bold_line split_acc_newline
          replace_bold_keeps_line)
  qed
qed

lemma star_not_trimmed [simp]: "\<not> isTrimmed star"
  by (simp add: isTrimmed_def isWhiteSpace_def isLineTerminator_def star_def)

lemma trim_empty_iff: "trim s = [] \<longleftrightarrow> (\<forall>c \<in> set s. isTrimmed c)"
proof
  assume "trim s = []"
  then have all: "\<forall>c \<in> set (dropWhile isTrimmed s). isTrimmed c"
    by (simp add: trim_def)
  have "dropWhile isTrimmed s = []"
  proof (rule ccontr)
    assume ne: "dropWhile isTrimmed s \<noteq> []"
    then have "\<not> isTrimmed (hd (dropWhile isTrimmed s))" by (rule hd_dropWhile)
    with all ne show False by simp
  qed
  then show "\<forall>c \<in> set s. isTrimmed c" by simp
next
  assume "\<forall>c \<in> set s. isTrimmed c"
  then have "dropWhile isTrimmed s = []" by simp
  then show "trim s = []" by (simp add: trim_def del: dropWhile_eq_Nil_conv)
qed

lemma replace_bold_no_star: "star \<notin> set s \<Longrightarrow> replace_bold s = s"
  by (induction s) (auto simp: match_bold_def)

lemma replace_bold_blank: "trim s = [] \<Longrightarrow> replace_bold s = s"
  by (rule replace_bold_no_star) (auto simp: trim_empty_iff)

lemma trim_hd: "trim s \<noteq> [] \<Longrightarrow> \<not> isTrimmed (hd (trim s))"
proof -
  assume a: "trim s \<noteq> []"
  let ?d = "dropWhile isTrimmed s"
  from a have d: "?d \<noteq> []" by (simp add: trim_empty_iff)
  then have h: "\<not> isTrimmed (hd ?d)" by (rule hd_dropWhile)
  obtain x xs where x: "?d = x # xs" using d by (cases ?d) auto
  with h have nx: "\<not> isTrimmed x" by simp
  then have "dropWhile isTrimmed (rev xs @ [x]) = dropWhile isTrimmed (rev xs) @ [x]"
    by (simp add: dropWhile_append3)
  with x have "trim s = x # rev (dropWhile isTrimmed (rev xs))"
    by (simp add: trim_def)
  with nx show ?thesis by simp
qed

lemma trim_last: "trim s \<noteq> [] \<Longrightarrow> \<not> isTrimmed (last (trim s))"
proof -
  assume a: "trim s \<noteq> []"
  let ?r = "dropWhile isTrimmed (rev (dropWhile isTrimmed s))"
  from a have "?r \<noteq> []" by (simp add: trim_def)
  then have "\<not> isTrimmed (hd ?r)" by (rule hd_dropWhile)
  moreover have "last (trim s) = hd ?r" using \<open>?r \<noteq> []\<close> by (simp add: trim_def last_rev)
  ultimately show ?thesis by simp
qed

lemma markdownToHtml_lines:
  "s \<noteq> [] \<Longrightarrow>
   markdownToHtml (Some s) =
     close_list (render_lines (False, []) (map replace_bold (split_lines s)))"
  by (simp add: markdownToHtml_def close_list_def split_lines_replace_bold Let_def)

lemma render_lines_append:
  "render_lines st (xs @ ys) = render_lines (render_lines st xs) ys"
  by (induction xs arbitrary: st) auto

lemma render_line_blank:
  "trim raw = [] \<Longrightarrow> render_line st raw = (False, close_list st)"
  by (simp add: render_line_def close_list_def startsWithBullet_def)

lemma render_line_paragraph:
  "\<not> startsWithBullet (trim raw) \<Longrightarrow> trim raw \<noteq> [] \<Longrightarrow>
   render_line st raw = (False, close_list st @ wrap_p (trim raw))"
  by (simp add: render_line_def close_list_def wrap_p_def)

lemma render_line_bullet:
  "startsWithBullet (trim raw) \<Longrightarrow>
   render_line st raw =
     (True, (if fst st then snd st else snd st @ ul_open) @
            li_open @ trim (drop 2 (trim raw)) @ li_close)"
  by (simp add: render_line_def)

lemma split_lines_nonempty: "split_lines s \<noteq> []"
  by (simp add: split_lines_def split_acc_nonempty)

subsection \<open>Bold replacement keeps blank lines and bullet lines\<close>

lemma trim_rtrim: "trim s = rtrim (dropWhile isTrimmed s)"
  by (simp add: trim_def rtrim_def)

lemma rtrim_Cons:
  "rtrim (x # xs) =
     (if \<exists>c \<in> set xs. \<not> isTrimmed c then x # rtrim xs
      else if isTrimmed x then [] else [x])"
  by (auto simp: rtrim_def dropWhile_append)

lemma rtrim_Nil [simp]: "rtrim [] = []"
  by (simp add: rtrim_def)

lemma space_trimmed [simp]: "isTrimmed space"
  by (simp add: isTrimmed_def isWhiteSpace_def space_def)

lemma star_neq_space [simp]: "star \<noteq> space" "space \<noteq> star"
  by (simp_all add: star_def space_def)

lemma bullet_rtrim:
  "startsWithBullet (rtrim m) \<longleftrightarrow>
     (\<exists>t. m = star # space # t \<and> (\<exists>c \<in> set t. \<not> isTrimmed c))"
proof (cases m)
  case Nil
  then show ?thesis by (simp add: startsWithBullet_def)
next
  case (Cons x xs)
  note m = this
  show ?thesis
  proof (cases xs)
    case Nil
    with m show ?thesis by (simp add: startsWithBullet_def rtrim_Cons)
  next
    case (Cons y t)
    with m show ?thesis by (auto simp: startsWithBullet_def rtrim_Cons)
  qed
qed

lemma strong_open_hd: "strong_open = 0x3C # tl strong_open"
  by (simp add: strong_open_def js_def)

lemma replace_bold_match_hd:
  "match_bold s = Some m \<Longrightarrow> \<exists>r. replace_bold s = 0x3C # r"
proof (cases s)
  case Nil
  assume "match_bold s = Some m"
  with Nil show ?thesis by (simp add: match_bold_def)
next
  case (Cons c cs)
  assume a: "match_bold s = Some m"
  obtain cap r where "m = (cap, r)" by (cases m)
  with a Cons have "replace_bold s = strong_open @ cap @ strong_close @ replace_bold r"
    by simp
  then show ?thesis by (subst (asm) strong_open_hd) simp
qed

lemma lt_neq [simp]:
  "(0x3C :: jschar) \<noteq> star" "(0x3C :: jschar) \<noteq> space"
  "star \<noteq> 0x3C" "space \<noteq> 0x3C" "\<not> isTrimmed 0x3C"
  by (simp_all add: star_def space_def isTrimmed_def isWhiteSpace_def isLineTerminator_def)

lemma replace_bold_Cons_eq:
  "replace_bold s = x # r \<Longrightarrow> x \<noteq> 0x3C \<Longrightarrow>
   \<exists>cs. s = x # cs \<and> r = replace_bold cs"
proof (cases s)
  case Nil
  assume "replace_bold s = x # r"
  with Nil show ?thesis by simp
next
  case (Cons c cs)
  assume a: "replace_bold s = x # r" and x: "x \<noteq> 0x3C"
  show ?thesis
  proof (cases "match_bold s")
    case None
    with a Cons show ?thesis by simp
  next
    case (Some m)
    from replace_bold_match_hd [OF this] a x show ?thesis by auto
  qed
qed

lemma replace_bold_nonblank:
  "\<exists>c \<in> set s. \<not> isTrimmed c \<Longrightarrow> \<exists>c \<in> set (replace_bold s). \<not> isTrimmed c"
proof (induction s rule: replace_bold.induct)
  case 1
  then show ?case by simp
next
  case (2 c cs)
  show ?case
  proof (cases "match_bold (c # cs)")
    case None
    with 2 show ?thesis by auto
  next
    case (Some m)
    from replace_bold_match_hd [OF this] show ?thesis by auto
  qed
qed

lemma replace_bold_nonblank_iff:
  "(\<exists>c \<in> set (replace_bold s). \<not> isTrimmed c) \<longleftrightarrow> (\<exists>c \<in> set s. \<not> isTrimmed c)"
proof
  assume l: "\<exists>c \<in> set (replace_bold s). \<not> isTrimmed c"
  show "\<exists>c \<in> set s. \<not> isTrimmed c"
  proof (rule ccontr)
    assume "\<not> (\<exists>c \<in> set s. \<not> isTrimmed c)"
    then have "trim s = []" by (simp add: trim_empty_iff)
    then have "replace_bold s = s" by (rule replace_bold_blank)
    with l \<open>\<not> (\<exists>c \<in> set s. \<not> isTrimmed c)\<close> show False by simp
  qed
qed (rule replace_bold_nonblank)

lemma replace_bold_bullet_prefix:
  "replace_bold (star # space # t) = star # space # replace_bold t"
  by (simp add: match_bold_def)

lemma bullet_rtrim_replace_bold:
  "startsWithBullet (rtrim (replace_bold m)) \<longleftrightarrow> startsWithBullet (rtrim m)"
proof
  assume "startsWithBullet (rtrim m)"
  then obtain t where "m = star # space # t" "\<exists>c \<in> set t. \<not> isTrimmed c"
    by (auto simp: bullet_rtrim)
  then show "startsWithBullet (rtrim (replace_bold m))"
    by (simp only: bullet_rtrim replace_bold_bullet_prefix)
       (simp add: replace_bold_nonblank_iff)
next
  assume "startsWithBullet (rtrim (replace_bold m))"
  then obtain t' where r: "replace_bold m = star # space # t'"
      and nb: "\<exists>c \<in> set t'. \<not> isTrimmed c"
    by (auto simp: bullet_rtrim)
  from replace_bold_Cons_eq [OF r] obtain cs where
    m: "m = star # cs" and cs: "space # t' = replace_bold cs" by auto
  from replace_bold_Cons_eq [OF cs [symmetric]] obtain cs' where
    "cs = space # cs'" "t' = replace_bold cs'" by auto
  with m nb show "startsWithBullet (rtrim m)"
    by (auto simp: bullet_rtrim replace_bold_nonblank_iff)
qed

lemma replace_bold_skip:
  "star \<notin> set w \<Longrightarrow> replace_bold (w @ m) = w @ replace_bold m"
  by (induction w) (auto simp: match_bold_def)

lemma replace_bold_keeps_hd:
  "\<not> isTrimmed (hd s) \<Longrightarrow> s \<noteq> [] \<Longrightarrow>
   replace_bold s \<noteq> [] \<and> \<not> isTrimmed (hd (replace_bold s))"
proof (cases "match_bold s")
  case None
  assume "\<not> isTrimmed (hd s)" "s \<noteq> []"
  with None show ?thesis by (cases s) auto
next
  case (Some m)
  from replace_bold_match_hd [OF this] show ?thesis by auto
qed

lemma dropWhile_replace_bold:
  "dropWhile isTrimmed (replace_bold s) = replace_bold (dropWhile isTrimmed s)"
proof -
  let ?w = "takeWhile isTrimmed s" and ?m = "dropWhile isTrimmed s"
  have w: "\<forall>c \<in> set ?w. isTrimmed c" by (auto dest: set_takeWhileD)
  then have "star \<notin> set ?w" by auto
  then have "replace_bold (?w @ ?m) = ?w @ replace_bold ?m" by (rule replace_bold_skip)
  then have "dropWhile isTrimmed (replace_bold s) = dropWhile isTrimmed (replace_bold ?m)"
    using w by (simp add: dropWhile_append2)
  also have "\<dots> = replace_bold ?m"
  proof (cases "?m = []")
    case True
    then show ?thesis by (simp del: dropWhile_eq_Nil_conv)
  next
    case False
    then have "\<not> isTrimmed (hd ?m)" by (rule hd_dropWhile)
    from replace_bold_keeps_hd [OF this False] show ?thesis
      by (cases "replace_bold ?m") auto
  qed
  finally show ?thesis .
qed

lemma bullet_replace_bold:
  "startsWithBullet (trim (replace_bold s)) \<longleftrightarrow> startsWithBullet (trim s)"
  by (simp add: trim_rtrim dropWhile_replace_bold bullet_rtrim_replace_bold)

lemma blank_replace_bold: "trim (replace_bold s) = [] \<longleftrightarrow> trim s = []"
  using replace_bold_nonblank_iff [of s] unfolding trim_empty_iff by blast

subsection \<open>Properties of markdownToHtml\<close>

text \<open>
  Claim C3, as the code has it. For every non-empty input in which the regular expression
  of the bold spans matches nowhere and no line starts, once trimmed, with \<open>* \<close>, the
  output is the concatenation, in the order of the input, of one paragraph for each line
  that is not blank, holding that line trimmed. When such an input has no line feed and is
  not blank, the output is the trimmed input wrapped in one paragraph.
\<close>

theorem markdownToHtml_plain:
  assumes "s \<noteq> []" and "\<not> has_bold_span s" and "\<not> has_bullet_line s"
  shows "markdownToHtml (Some s) =
           concat (map (\<lambda>l. wrap_p (trim l)) (filter (\<lambda>l. trim l \<noteq> []) (split_lines s))) \<and>
         (newline \<notin> set s \<and> trim s \<noteq> [] \<longrightarrow> markdownToHtml (Some s) = wrap_p (trim s))"
proof -
  from assms(3) have "\<forall>l \<in> set (split_lines s). \<not> startsWithBullet (trim l)"
    by (simp add: has_bullet_line_def list_ex_iff)
  from render_lines_plain [OF this, of "[]"] assms(1,2)
  have lines: "markdownToHtml (Some s) =
      concat (map (\<lambda>l. wrap_p (trim l)) (filter (\<lambda>l. trim l \<noteq> []) (split_lines s)))"
    by (simp add: markdownToHtml_def replace_bold_no_span)
  have "markdownToHtml (Some s) = wrap_p (trim s)" if "newline \<notin> set s" "trim s \<noteq> []"
    using that lines by (simp add: split_lines_def split_acc_no_newline)
  with lines show ?thesis by blast
qed

theorem markdownToHtml_plain_witness:
  "js ''  hola mundo '' \<noteq> [] \<and> \<not> has_bold_span (js ''  hola mundo '') \<and>
   \<not> has_bullet_line (js ''  hola mundo '') \<and> newline \<notin> set (js ''  hola mundo '') \<and>
   markdownToHtml (Some (js ''  hola mundo '')) = p_open @ js ''hola mundo'' @ p_close"
proof -
  have h1: "js ''  hola mundo '' \<noteq> []" by (simp add: js_def)
  have h2: "\<not> has_bold_span (js ''  hola mundo '')" by code_simp
  have h3: "\<not> has_bullet_line (js ''  hola mundo '')" by code_simp
  have h4: "newline \<notin> set (js ''  hola mundo '')" by code_simp
  have t: "trim (js ''  hola mundo '') = js ''hola mundo''" by code_simp
  have ne: "js ''hola mundo'' \<noteq> []" by (simp add: js_def)
  from h4 t ne have "newline \<notin> set (js ''  hola mundo '') \<and> trim (js ''  hola mundo '') \<noteq> []"
    by simp
  with markdownToHtml_plain [OF h1 h2 h3]
  have "markdownToHtml (Some (js ''  hola mundo '')) = wrap_p (trim (js ''  hola mundo ''))"
    by blast
  then have "markdownToHtml (Some (js ''  hola mundo '')) = p_open @ js ''hola mundo'' @ p_close"
    by (simp only: t wrap_p_def)
  with h1 h2 h3 h4 show ?thesis by blast
qed

text \<open>
  Claim C3 as the specification states it fails twice. The renderer is not idempotent: on
  its own output for \<open>a\<close> it wraps the paragraph markup in a second paragraph. And an
  input of two lines gives two paragraphs, not the input wrapped in one.
\<close>

theorem markdownToHtml_idempotent_counterexample:
  "\<not> has_bold_span (js ''a'') \<and> \<not> has_bullet_line (js ''a'') \<and>
   markdownToHtml (Some (js ''a'')) = p_open @ js ''a'' @ p_close \<and>
   markdownToHtml (Some (markdownToHtml (Some (js ''a'')))) =
     p_open @ p_open @ js ''a'' @ p_close @ p_close \<and>
   markdownToHtml (Some (markdownToHtml (Some (js ''a'')))) \<noteq> markdownToHtml (Some (js ''a'')) \<and>
   \<not> has_bold_span (js ''a\<newline>b'') \<and> \<not> has_bullet_line (js ''a\<newline>b'') \<and>
   markdownToHtml (Some (js ''a\<newline>b'')) =
     p_open @ js ''a'' @ p_close @ p_open @ js ''b'' @ p_close \<and>
   markdownToHtml (Some (js ''a\<newline>b'')) \<noteq> p_open @ js ''a\<newline>b'' @ p_close"
  by code_simp

text \<open>
  Claim C4. On the input of the specification the output is one paragraph \<open>a\<close>, one list
  block with the items \<open>b\<close> and \<open>c\<close>, and one paragraph \<open>d\<close>. On every non-empty input
  whose last line is a bullet line the output ends with the item of that line followed by
  the closing tag of the list.
\<close>

theorem markdownToHtml_groups_and_closes_list:
  "markdownToHtml (Some (js ''a\<newline>* b\<newline>* c\<newline>d'')) =
     p_open @ js ''a'' @ p_close @
     ul_open @ li_open @ js ''b'' @ li_close @ li_open @ js ''c'' @ li_close @ ul_close @
     p_open @ js ''d'' @ p_close \<and>
   (s \<noteq> [] \<and> startsWithBullet (trim (last (split_lines s))) \<longrightarrow>
     (\<exists>pre. markdownToHtml (Some s) =
        pre @ li_open @ trim (drop 2 (trim (replace_bold (last (split_lines s))))) @
        li_close @ ul_close))"
proof (intro conjI impI)
  show "markdownToHtml (Some (js ''a\<newline>* b\<newline>* c\<newline>d'')) =
     p_open @ js ''a'' @ p_close @
     ul_open @ li_open @ js ''b'' @ li_close @ li_open @ js ''c'' @ li_close @ ul_close @
     p_open @ js ''d'' @ p_close"
    by code_simp
next
  let ?ls = "map replace_bold (split_lines s)"
  let ?l = "replace_bold (last (split_lines s))"
  assume a: "s \<noteq> [] \<and> startsWithBullet (trim (last (split_lines s)))"
  then have bullet: "startsWithBullet (trim ?l)" by (simp add: bullet_replace_bold)
  have ls: "?ls = butlast ?ls @ [?l]"
    using split_lines_nonempty [of s]
    by (metis (no_types, lifting) append_butlast_last_id last_map map_is_Nil_conv)
  define st where "st = render_lines (False, []) (butlast ?ls)"
  have "render_lines (False, []) ?ls = render_line st ?l"
    unfolding st_def by (subst ls) (simp add: render_lines_append)
  also have "\<dots> = (True, (if fst st then snd st else snd st @ ul_open) @
            li_open @ trim (drop 2 (trim ?l)) @ li_close)"
    using bullet by (simp add: render_line_bullet)
  finally have "markdownToHtml (Some s) =
      (if fst st then snd st else snd st @ ul_open) @
      li_open @ trim (drop 2 (trim ?l)) @ li_close @ ul_close"
    using a by (simp add: markdownToHtml_lines close_list_def)
  then show "\<exists>pre. markdownToHtml (Some s) =
        pre @ li_open @ trim (drop 2 (trim ?l)) @ li_close @ ul_close"
    by blast
qed

theorem markdownToHtml_groups_and_closes_list_witness:
  "js ''x\<newline>* **y**'' \<noteq> [] \<and>
   startsWithBullet (trim (last (split_lines (js ''x\<newline>* **y**'')))) \<and>
   (\<exists>pre. markdownToHtml (Some (js ''x\<newline>* **y**'')) =
      pre @ li_open @ js ''<strong>y</strong>'' @ li_close @ ul_close)"
proof -
  have h: "js ''x\<newline>* **y**'' \<noteq> [] \<and>
      startsWithBullet (trim (last (split_lines (js ''x\<newline>* **y**''))))"
    by code_simp
  have t: "trim (drop 2 (trim (replace_bold (last (split_lines (js ''x\<newline>* **y**''))))))
      = js ''<strong>y</strong>''"
    by code_simp
  from markdownToHtml_groups_and_closes_list [of "js ''x\<newline>* **y**''"] h
  have "\<exists>pre. markdownToHtml (Some (js ''x\<newline>* **y**'')) =
      pre @ li_open @
      trim (drop 2 (trim (replace_bold (last (split_lines (js ''x\<newline>* **y**'')))))) @
      li_close @ ul_close"
    by blast
  then have "\<exists>pre. markdownToHtml (Some (js ''x\<newline>* **y**'')) =
      pre @ li_open @ js ''<strong>y</strong>'' @ li_close @ ul_close"
    by (simp only: t)
  with h show ?thesis by blast
qed

text \<open>
  Claim C10. The output is empty for an absent and for an empty input. The output on a
  non-empty input is the loop run over the lines of the input, each with its bold spans
  replaced. A line that is blank once trimmed adds nothing but the closing tag of an open
  list. A line that is neither blank nor a bullet line adds, after the closing tag of an
  open list, one paragraph that holds the line trimmed: it neither starts nor ends with a
  white space or line terminator.
\<close>

theorem markdownToHtml_blank_lines_and_trimming:
  "markdownToHtml None = [] \<and> markdownToHtml (Some []) = [] \<and>
   (s \<noteq> [] \<longrightarrow>
      markdownToHtml (Some s) =
        close_list (render_lines (False, []) (map replace_bold (split_lines s)))) \<and>
   (trim l = [] \<longrightarrow> render_line st (replace_bold l) = (False, close_list st)) \<and>
   (trim l \<noteq> [] \<and> \<not> startsWithBullet (trim l) \<longrightarrow>
      render_line st (replace_bold l) =
        (False, close_list st @ p_open @ trim (replace_bold l) @ p_close) \<and>
      trim (replace_bold l) \<noteq> [] \<and>
      \<not> isTrimmed (hd (trim (replace_bold l))) \<and>
      \<not> isTrimmed (last (trim (replace_bold l))))"
proof (intro conjI impI)
  show "markdownToHtml None = []" by (simp add: markdownToHtml_def)
  show "markdownToHtml (Some []) = []" by (simp add: markdownToHtml_def)
next
  assume "s \<noteq> []"
  then show "markdownToHtml (Some s) =
      close_list (render_lines (False, []) (map replace_bold (split_lines s)))"
    by (rule markdownToHtml_lines)
next
  assume "trim l = []"
  then have "trim (replace_bold l) = []" by (simp add: blank_replace_bold)
  then show "render_line st (replace_bold l) = (False, close_list st)"
    by (rule render_line_blank)
next
  assume a: "trim l \<noteq> [] \<and> \<not> startsWithBullet (trim l)"
  then have ne: "trim (replace_bold l) \<noteq> []" by (simp add: blank_replace_bold)
  from a have nb: "\<not> startsWithBullet (trim (replace_bold l))"
    by (simp add: bullet_replace_bold)
  from render_line_paragraph [OF nb ne]
  show "render_line st (replace_bold l) =
      (False, close_list st @ p_open @ trim (replace_bold l) @ p_close)"
    by (simp add: wrap_p_def)
  from ne show "trim (replace_bold l) \<noteq> []" .
  from ne show "\<not> isTrimmed (hd (trim (replace_bold l)))" by (rule trim_hd)
  from ne show "\<not> isTrimmed (last (trim (replace_bold l)))" by (rule trim_last)
qed

theorem markdownToHtml_blank_lines_and_trimming_witness:
  "js ''* a\<newline>  \<newline>  b  '' \<noteq> [] \<and>
   split_lines (js ''* a\<newline>  \<newline>  b  '') = [js ''* a'', js ''  '', js ''  b  ''] \<and>
   trim (js ''  '') = [] \<and>
   render_line (True, js ''x'') (replace_bold (js ''  '')) = (False, js ''x'' @ ul_close) \<and>
   trim (js ''  b  '') \<noteq> [] \<and> \<not> startsWithBullet (trim (js ''  b  '')) \<and>
   render_line (False, js ''x'') (replace_bold (js ''  b  '')) =
     (False, js ''x'' @ p_open @ js ''b'' @ p_close) \<and>
   markdownToHtml (Some (js ''* a\<newline>  \<newline>  b  '')) =
     ul_open @ li_open @ js ''a'' @ li_close @ ul_close @ p_open @ js ''b'' @ p_close"
proof -
  note thm1 = markdownToHtml_blank_lines_and_trimming
    [of "js ''* a\<newline>  \<newline>  b  ''" "js ''  ''" "(True, js ''x'')"]
  note thm2 = markdownToHtml_blank_lines_and_trimming
    [of "js ''* a\<newline>  \<newline>  b  ''" "js ''  b  ''" "(False, js ''x'')"]
  have h1: "js ''* a\<newline>  \<newline>  b  '' \<noteq> []" by (simp add: js_def)
  have sp: "split_lines (js ''* a\<newline>  \<newline>  b  '') = [js ''* a'', js ''  '', js ''  b  '']"
    by code_simp
  have h2: "trim (js ''  '') = []" by code_simp
  have h3: "trim (js ''  b  '') \<noteq> [] \<and> \<not> startsWithBullet (trim (js ''  b  ''))"
    by code_simp
  have t: "trim (replace_bold (js ''  b  '')) = js ''b''" by code_simp
  from thm1 h2 have r1:
    "render_line (True, js ''x'') (replace_bold (js ''  '')) = (False, js ''x'' @ ul_close)"
    by (simp add: close_list_def)
  from thm2 h3 have r2: "render_line (False, js ''x'') (replace_bold (js ''  b  '')) =
     (False, js ''x'' @ p_open @ js ''b'' @ p_close)"
    by (simp add: close_list_def t)
  have whole: "markdownToHtml (Some (js ''* a\<newline>  \<newline>  b  '')) =
     ul_open @ li_open @ js ''a'' @ li_close @ ul_close @ p_open @ js ''b'' @ p_close"
    by code_simp
  from h1 sp h2 h3 r1 r2 whole show ?thesis by blast
qed

section \<open>spa.js: the partial loader\<close>

type_synonym url = jsstring

text \<open>
  A click listener of an anchor: the one \<open>initNavigationLinks\<close> registers, or one that
  other code registered with \<open>addEventListener\<close>.
\<close>

datatype listener = NavClick | OtherListener nat

text \<open>
  An element of the document that the router selects (an anchor, as a rule), with what the
  router reads and writes: the \<open>href\<close> attribute
  (\<open>None\<close> when \<open>getAttribute\<close> returns \<open>null\<close>), whether it matches \<open>a[data-link]\<close>,
  whether it matches \<open>.sidebar .nav-link\<close>, whether its class list holds \<open>active\<close>, and
  its click listeners in the order of registration.
\<close>

record link =
  href :: "jsstring option"
  data_link :: bool
  sidebar_nav :: bool
  active :: bool
  listeners :: "listener list"

text \<open>
  What the browser's parser makes of markup assigned to \<open>innerHTML\<close>, as far as the router
  looks at it: the anchors, and the \<open>data-page\<close> value of the first element that has one.
\<close>

record fragment =
  frag_links :: "link list"
  frag_page :: "jsstring option"

text \<open>
  The browser is a parameter: its HTML parser, and whether \<open>history.pushState\<close> accepts a
  URL (it throws a \<open>SecurityError\<close> for a URL of another origin).
\<close>

record browser =
  parseHTML :: "jsstring \<Rightarrow> fragment"
  pushAllowed :: "url \<Rightarrow> bool"

datatype load_error = HttpStatusError nat | TransportError | BodyReadError | PushStateError

datatype console_entry = ContainerMissing | SpaError load_error | PageLoaded jsstring

text \<open>
  How a \<open>fetch\<close> settles: the promise rejects, or it resolves with a status and a body
  (\<open>None\<close> when \<open>res.text()\<close> rejects).
\<close>

datatype fetch_result = Rejected | Resolved nat "jsstring option"

text \<open>\<open>res.ok\<close>\<close>

definition ok :: "nat \<Rightarrow> bool" where
  "ok status \<longleftrightarrow> 200 \<le> status \<and> status \<le> 299"

text \<open>A fetch in flight, with the \<open>url\<close> and \<open>push\<close> its handlers have closed over.\<close>

record request =
  req_url :: url
  req_push :: bool

text \<open>
  The page: whether \<open>#dynamic-content\<close> exists, its \<open>innerHTML\<close>, the anchors and the page
  marker inside it, the anchors outside it, the fetches in flight, and the effects so far:
  the URLs given to \<open>history.pushState\<close>, the URLs of the \<open>spa:navigate\<close> events
  dispatched, the console, and the number of resize timers set.
\<close>

record page =
  has_container :: bool
  container :: jsstring
  inner_links :: "link list"
  inner_page :: "jsstring option"
  outer_links :: "link list"
  pending :: "request list"
  pushed :: "url list"
  navigated :: "url list"
  console :: "console_entry list"
  resize_timers :: nat

definition links :: "page \<Rightarrow> link list" where
  "links s = outer_links s @ inner_links s"

definition map_links :: "(link \<Rightarrow> link) \<Rightarrow> page \<Rightarrow> page" where
  "map_links f s = s\<lparr>inner_links := map f (inner_links s), outer_links := map f (outer_links s)\<rparr>"

definition loading_html :: jsstring where
  \<open>loading_html =
     js ''<p style="text-align:center; padding:40px; opacity:0.7;">'' @ [0x23F3] @
     js '' Cargando...</p>''\<close>

definition error_html :: jsstring where
  \<open>error_html =
     js ''\<newline>        <div class="alert alert-danger" style="margin: 20px;">\<newline>          <i class="bi bi-exclamation-triangle"></i>\<newline>          '' @
     [0x26A0, 0xFE0F] @
     js '' No se pudo cargar el contenido.\<newline>        </div>''\<close>

text \<open>The two literals hold no anchor and no page marker.\<close>

definition no_links :: fragment where
  "no_links = \<lparr>frag_links = [], frag_page = None\<rparr>"

text \<open>\<open>container.innerHTML = html\<close>, with what \<open>html\<close> parses to.\<close>

definition setInnerHTML :: "jsstring \<Rightarrow> fragment \<Rightarrow> page \<Rightarrow> page" where
  "setInnerHTML html frag s =
     s\<lparr>container := html, inner_links := frag_links frag, inner_page := frag_page frag\<rparr>"

text \<open>\<open>setActiveNav(url)\<close>\<close>

definition mark_active :: "url \<Rightarrow> link \<Rightarrow> link" where
  "mark_active u l = (if sidebar_nav l then l\<lparr>active := (href l = Some u)\<rparr> else l)"

definition setActiveNav :: "url \<Rightarrow> page \<Rightarrow> page" where
  "setActiveNav u s = map_links (mark_active u) s"

text \<open>
  \<open>initNavigationLinks()\<close>: the first loop replaces every \<open>a[data-link]\<close> by its clone
  (\<open>cloneNode\<close> copies attributes and classes, not listeners); the second loop registers
  the click listener on every \<open>a[data-link]\<close>.
\<close>

definition cloneNode :: "link \<Rightarrow> link" where
  "cloneNode l = l\<lparr>listeners := []\<rparr>"

definition addNavClick :: "link \<Rightarrow> link" where
  "addNavClick l = l\<lparr>listeners := listeners l @ [NavClick]\<rparr>"

definition initNavigationLinks :: "page \<Rightarrow> page" where
  "initNavigationLinks s =
     map_links (\<lambda>l. if data_link l then addNavClick l else l)
       (map_links (\<lambda>l. if data_link l then cloneNode l else l) s)"

text \<open>\<open>runPageInitializer()\<close>\<close>

definition runPageInitializer :: "page \<Rightarrow> page" where
  "runPageInitializer s =
     (case inner_page s of
        None \<Rightarrow> s
      | Some pageName \<Rightarrow> s\<lparr>console := console s @ [PageLoaded pageName]\<rparr>)"

text \<open>\<open>loadPartial(url, push)\<close>, up to the call of \<open>fetch\<close>.\<close>

definition loadPartial :: "url \<Rightarrow> bool \<Rightarrow> page \<Rightarrow> page" where
  "loadPartial u push s =
     (if \<not> has_container s then s\<lparr>console := console s @ [ContainerMissing]\<rparr>
      else (setInnerHTML loading_html no_links s)
             \<lparr>pending := pending s @ [\<lparr>req_url = u, req_push = push\<rparr>]\<rparr>)"

text \<open>The \<open>catch\<close> handler.\<close>

definition loadPartial_catch :: "load_error \<Rightarrow> page \<Rightarrow> page" where
  "loadPartial_catch err s =
     (setInnerHTML error_html no_links s)\<lparr>console := console s @ [SpaError err]\<rparr>"

text \<open>
  The second \<open>then\<close> handler, on the text of the response. An exception of \<open>pushState\<close>
  goes to the \<open>catch\<close> handler after the container has been written.
\<close>

definition loadPartial_then :: "browser \<Rightarrow> request \<Rightarrow> jsstring \<Rightarrow> page \<Rightarrow> page" where
  "loadPartial_then env req html s =
     (let s1 = setInnerHTML html (parseHTML env html) s in
      if req_push req \<and> \<not> pushAllowed env (req_url req) then loadPartial_catch PushStateError s1
      else
        (let s2 = (if req_push req then s1\<lparr>pushed := pushed s1 @ [req_url req]\<rparr> else s1);
             s3 = setActiveNav (req_url req) s2;
             s4 = initNavigationLinks s3;
             s5 = s4\<lparr>navigated := navigated s4 @ [req_url req]\<rparr>;
             s6 = runPageInitializer s5
         in s6\<lparr>resize_timers := Suc (resize_timers s6)\<rparr>))"

text \<open>The promise chain of \<open>loadPartial\<close>, run when the fetch of \<open>req\<close> settles.\<close>

definition loadPartial_settled :: "browser \<Rightarrow> request \<Rightarrow> fetch_result \<Rightarrow> page \<Rightarrow> page" where
  "loadPartial_settled env req r s =
     (case r of
        Rejected \<Rightarrow> loadPartial_catch TransportError s
      | Resolved status body \<Rightarrow>
          if \<not> ok status then loadPartial_catch (HttpStatusError status) s
          else (case body of
                  None \<Rightarrow> loadPartial_catch BodyReadError s
                | Some html \<Rightarrow> loadPartial_then env req html s))"

text \<open>
  The click listener of \<open>initNavigationLinks\<close> on the anchor \<open>l\<close>, and a click on \<open>l\<close>: its
  listeners run in the order of registration.
\<close>

definition navClickHandler :: "link \<Rightarrow> page \<Rightarrow> page" where
  "navClickHandler l s =
     (case href l of
        None \<Rightarrow> s
      | Some u \<Rightarrow> if u \<noteq> [] then loadPartial u True s else s)"

fun run_listener :: "link \<Rightarrow> page \<Rightarrow> listener \<Rightarrow> page" where
  "run_listener l s NavClick = navClickHandler l s"
| "run_listener l s (OtherListener n) = s"

definition click :: "link \<Rightarrow> page \<Rightarrow> page" where
  "click l s = foldl (run_listener l) s (listeners l)"

text \<open>
  The \<open>DOMContentLoaded\<close> handler, with \<open>currentUrl\<close> the path of the location. (The state
  of the sidebar and the entry of \<open>history.replaceState\<close> are not part of the page state.)
\<close>

definition onDOMContentLoaded :: "url \<Rightarrow> page \<Rightarrow> page" where
  "onDOMContentLoaded currentUrl s =
     initNavigationLinks
       (if has_container s \<and> inner_page s = None \<and> trim (container s) = []
        then loadPartial currentUrl False s else s)"

text \<open>
  The events of the router after that: a call of \<open>loadPartial\<close> (from a click or from
  \<open>popstate\<close>), and the settling of the fetch at a position of the list of those in flight.
\<close>

datatype spa_event = LoadPartial url bool | Settled nat fetch_result

fun spa_step :: "browser \<Rightarrow> page \<Rightarrow> spa_event \<Rightarrow> page" where
  "spa_step env s (LoadPartial u push) = loadPartial u push s"
| "spa_step env s (Settled i r) =
     (if i < length (pending s)
      then loadPartial_settled env (pending s ! i) r
             (s\<lparr>pending := take i (pending s) @ drop (Suc i) (pending s)\<rparr>)
      else s)"

definition spa_run :: "browser \<Rightarrow> page \<Rightarrow> spa_event list \<Rightarrow> page" where
  "spa_run env s evs = foldl (spa_step env) s evs"

text \<open>Whether a settled fetch ends in the content being shown.\<close>

definition load_succeeds :: "browser \<Rightarrow> request \<Rightarrow> fetch_result \<Rightarrow> bool" where
  "load_succeeds env req r =
     (case r of
        Rejected \<Rightarrow> False
      | Resolved status body \<Rightarrow>
          ok status \<and> body \<noteq> None \<and> (\<not> req_push req \<or> pushAllowed env (req_url req)))"

text \<open>
  The error with which the fetch of a request fails, if it does: a transport error, a status
  outside 200 to 299, or a body that cannot be read.
\<close>

definition fetch_error :: "fetch_result \<Rightarrow> load_error option" where
  "fetch_error r =
     (case r of
        Rejected \<Rightarrow> Some TransportError
      | Resolved status body \<Rightarrow>
          if \<not> ok status then Some (HttpStatusError status)
          else if body = None then Some BodyReadError
          else None)"

text \<open>
  \<open>bound_once s\<close>: every anchor of the page that matches \<open>a[data-link]\<close> has the click
  listener of \<open>initNavigationLinks\<close> and no other.
\<close>

definition bound_once :: "page \<Rightarrow> bool" where
  "bound_once s = list_all (\<lambda>l. \<not> data_link l \<or> listeners l = [NavClick]) (links s)"

text \<open>Sample browsers and pages, for the concrete runs below.\<close>

definition plain_browser :: browser where
  "plain_browser = \<lparr>parseHTML = (\<lambda>html. no_links), pushAllowed = (\<lambda>u. True)\<rparr>"

definition empty_page :: page where
  "empty_page = \<lparr>has_container = True, container = [], inner_links = [], inner_page = None,
     outer_links = [], pending = [], pushed = [], navigated = [], console = [],
     resize_timers = 0\<rparr>"

definition sample_page :: page where
  "sample_page = empty_page\<lparr>outer_links :=
     [\<lparr>href = Some (js ''/a''), data_link = True, sidebar_nav = True, active = False, listeners = []\<rparr>,
      \<lparr>href = Some (js ''/a/''), data_link = True, sidebar_nav = True, active = True,
        listeners = [NavClick, NavClick]\<rparr>]\<rparr>"

definition link_browser :: browser where
  "link_browser =
     \<lparr>parseHTML = (\<lambda>html. \<lparr>frag_links =
          [\<lparr>href = Some (js ''/b''), data_link = True, sidebar_nav = False, active = False,
            listeners = []\<rparr>], frag_page = None\<rparr>),
      pushAllowed = (\<lambda>u. True)\<rparr>"

subsection \<open>Helper lemmas on the page state\<close>

lemma container_setInnerHTML [simp]: "container (setInnerHTML html frag s) = html"
  by (simp add: setInnerHTML_def)

lemma container_map_links [simp]: "container (map_links f s) = container s"
  by (simp add: map_links_def)

lemma container_runPageInitializer [simp]: "container (runPageInitializer s) = container s"
  by (simp add: runPageInitializer_def split: option.splits)

lemma container_catch [simp]: "container (loadPartial_catch err s) = error_html"
  by (simp add: loadPartial_catch_def)

lemma container_then:
  "container (loadPartial_then env req html s) =
     (if req_push req \<and> \<not> pushAllowed env (req_url req) then error_html else html)"
  by (simp add: loadPartial_then_def Let_def setActiveNav_def initNavigationLinks_def)

subsection \<open>Properties of the partial loader\<close>

text \<open>
  Claim C1, as the code has it. A call of \<open>loadPartial\<close> on a page with the container puts
  the loading placeholder into the container. Every fetch that settles replaces the contents
  of the container with its own outcome, the body of the response when the load succeeds and
  the error panel otherwise, whatever has been requested since: the handlers compare no
  sequence number and cancel no fetch.
\<close>

theorem loadPartial_last_settled_wins:
  "(has_container s \<longrightarrow> container (spa_step env s (LoadPartial u push)) = loading_html) \<and>
   (i < length (pending s) \<longrightarrow>
      container (spa_step env s (Settled i r)) =
        (case r of
           Resolved status (Some html) \<Rightarrow>
             if load_succeeds env (pending s ! i) r then html else error_html
         | _ \<Rightarrow> error_html))"
  by (auto simp: loadPartial_def loadPartial_settled_def load_succeeds_def container_then
           split: fetch_result.splits option.splits)

theorem loadPartial_last_settled_wins_witness:
  "has_container empty_page \<and>
   container (spa_step plain_browser empty_page (LoadPartial (js ''/a'') True)) = loading_html \<and>
   0 < length (pending (loadPartial (js ''/a'') True empty_page)) \<and>
   container (spa_step plain_browser (loadPartial (js ''/a'') True empty_page)
                (Settled 0 (Resolved 200 (Some (js ''A''))))) = js ''A'' \<and>
   container (spa_step plain_browser (loadPartial (js ''/a'') True empty_page)
                (Settled 0 (Resolved 404 (Some (js ''A''))))) = error_html"
proof -
  have h1: "has_container empty_page" by (simp add: empty_page_def)
  have h2: "0 < length (pending (loadPartial (js ''/a'') True empty_page))"
    by (simp add: loadPartial_def empty_page_def setInnerHTML_def)
  have p: "pending (loadPartial (js ''/a'') True empty_page) ! 0 =
      \<lparr>req_url = js ''/a'', req_push = True\<rparr>"
    by (simp add: loadPartial_def empty_page_def setInnerHTML_def)
  have ok1: "load_succeeds plain_browser \<lparr>req_url = js ''/a'', req_push = True\<rparr>
      (Resolved 200 (Some (js ''A'')))"
    by (simp add: load_succeeds_def plain_browser_def ok_def)
  have ok2: "\<not> load_succeeds plain_browser \<lparr>req_url = js ''/a'', req_push = True\<rparr>
      (Resolved 404 (Some (js ''A'')))"
    by (simp add: load_succeeds_def plain_browser_def ok_def)
  from loadPartial_last_settled_wins [of empty_page plain_browser "js ''/a''" True 0 Rejected] h1
  have a: "container (spa_step plain_browser empty_page (LoadPartial (js ''/a'') True)) = loading_html"
    by blast
  from loadPartial_last_settled_wins
    [of "loadPartial (js ''/a'') True empty_page" plain_browser "[]" True 0
        "Resolved 200 (Some (js ''A''))"] h2 p ok1
  have b: "container (spa_step plain_browser (loadPartial (js ''/a'') True empty_page)
                (Settled 0 (Resolved 200 (Some (js ''A''))))) = js ''A''"
    by simp
  from loadPartial_last_settled_wins
    [of "loadPartial (js ''/a'') True empty_page" plain_browser "[]" True 0
        "Resolved 404 (Some (js ''A''))"] h2 p ok2
  have c: "container (spa_step plain_browser (loadPartial (js ''/a'') True empty_page)
                (Settled 0 (Resolved 404 (Some (js ''A''))))) = error_html"
    by simp
  from h1 h2 a b c show ?thesis by blast
qed

text \<open>
  Claim C1 as the specification states it fails: \<open>/a\<close> is requested, then \<open>/b\<close>; the
  response for \<open>/b\<close> arrives first and is shown; the stale response for \<open>/a\<close> then
  overwrites it, and a navigation event for \<open>/a\<close> follows the one for \<open>/b\<close>.
\<close>

theorem loadPartial_stale_response_counterexample:
  "container (spa_run plain_browser empty_page
      [LoadPartial (js ''/a'') True, LoadPartial (js ''/b'') True,
       Settled 1 (Resolved 200 (Some (js ''B'')))]) = js ''B'' \<and>
   container (spa_run plain_browser empty_page
      [LoadPartial (js ''/a'') True, LoadPartial (js ''/b'') True,
       Settled 1 (Resolved 200 (Some (js ''B''))),
       Settled 0 (Resolved 200 (Some (js ''A'')))]) = js ''A'' \<and>
   navigated (spa_run plain_browser empty_page
      [LoadPartial (js ''/a'') True, LoadPartial (js ''/b'') True,
       Settled 1 (Resolved 200 (Some (js ''B''))),
       Settled 0 (Resolved 200 (Some (js ''A'')))]) = [js ''/b'', js ''/a'']"
  by (simp add: spa_run_def plain_browser_def empty_page_def loadPartial_def
        loadPartial_settled_def loadPartial_then_def setInnerHTML_def setActiveNav_def
        initNavigationLinks_def map_links_def runPageInitializer_def no_links_def ok_def
        Let_def)

text \<open>
  Claim C5. When the fetch of a request fails, by a transport error, by a status outside
  200 to 299 or by a body that cannot be read, the container holds the error panel, the error is the one entry added to the
  console, and neither a \<open>pushState\<close> call nor a \<open>spa:navigate\<close> event is added, whatever
  the URL and the push flag of the request.
\<close>

theorem loadPartial_failure:
  assumes "fetch_error r = Some err"
  shows "container (loadPartial_settled env req r s) = error_html \<and>
         inner_links (loadPartial_settled env req r s) = [] \<and>
         console (loadPartial_settled env req r s) = console s @ [SpaError err] \<and>
         pushed (loadPartial_settled env req r s) = pushed s \<and>
         navigated (loadPartial_settled env req r s) = navigated s \<and>
         pending (loadPartial_settled env req r s) = pending s"
proof (cases r)
  case Rejected
  with assms show ?thesis
    by (simp add: fetch_error_def loadPartial_settled_def loadPartial_catch_def
          setInnerHTML_def no_links_def)
next
  case (Resolved status body)
  with assms show ?thesis
    by (cases body)
       (auto simp: fetch_error_def loadPartial_settled_def loadPartial_catch_def
          setInnerHTML_def no_links_def split: if_splits)
qed

theorem loadPartial_failure_witness:
  "fetch_error (Resolved 500 (Some (js ''fail''))) = Some (HttpStatusError 500) \<and>
   container (loadPartial_settled plain_browser \<lparr>req_url = js ''/x'', req_push = True\<rparr>
      (Resolved 500 (Some (js ''fail''))) empty_page) = error_html \<and>
   console (loadPartial_settled plain_browser \<lparr>req_url = js ''/x'', req_push = True\<rparr>
      (Resolved 500 (Some (js ''fail''))) empty_page) = [SpaError (HttpStatusError 500)] \<and>
   pushed (loadPartial_settled plain_browser \<lparr>req_url = js ''/x'', req_push = True\<rparr>
      (Resolved 500 (Some (js ''fail''))) empty_page) = [] \<and>
   navigated (loadPartial_settled plain_browser \<lparr>req_url = js ''/x'', req_push = True\<rparr>
      (Resolved 500 (Some (js ''fail''))) empty_page) = [] \<and>
   fetch_error Rejected = Some TransportError \<and>
   console (loadPartial_settled plain_browser \<lparr>req_url = js ''/x'', req_push = True\<rparr>
      Rejected empty_page) = [SpaError TransportError] \<and>
   pushed (loadPartial_settled plain_browser \<lparr>req_url = js ''/x'', req_push = True\<rparr>
      Rejected empty_page) = []"
proof -
  let ?req = "\<lparr>req_url = js ''/x'', req_push = True\<rparr>"
  have h1: "fetch_error (Resolved 500 (Some (js ''fail''))) = Some (HttpStatusError 500)"
    by (simp add: fetch_error_def ok_def)
  have h2: "fetch_error Rejected = Some TransportError" by (simp add: fetch_error_def)
  have e: "console empty_page = []" "pushed empty_page = []" "navigated empty_page = []"
    by (simp_all add: empty_page_def)
  from loadPartial_failure [OF h1, of plain_browser ?req empty_page]
       loadPartial_failure [OF h2, of plain_browser ?req empty_page] h1 h2 e
  show ?thesis by simp
qed

lemma links_map_links: "links (map_links f s) = map f (links s)"
  by (simp add: links_def map_links_def)

lemma links_runPageInitializer [simp]: "links (runPageInitializer s) = links s"
  by (simp add: runPageInitializer_def links_def split: option.splits)

lemma runPageInitializer_links [simp]:
  "outer_links (runPageInitializer s) = outer_links s"
  "inner_links (runPageInitializer s) = inner_links s"
  by (simp_all add: runPageInitializer_def split: option.splits)

lemma map_links_links [simp]:
  "outer_links (map_links f s) = map f (outer_links s)"
  "inner_links (map_links f s) = map f (inner_links s)"
  by (simp_all add: map_links_def)

lemma links_then:
  "\<not> (req_push req \<and> \<not> pushAllowed env (req_url req)) \<Longrightarrow>
   links (loadPartial_then env req html s) =
     map ((\<lambda>l. if data_link l then addNavClick l else l) \<circ>
          (\<lambda>l. if data_link l then cloneNode l else l) \<circ> mark_active (req_url req))
       (outer_links s @ frag_links (parseHTML env html))"
  by (simp add: loadPartial_then_def Let_def initNavigationLinks_def setActiveNav_def
        links_def setInnerHTML_def)

lemma rebind_fields [simp]:
  "sidebar_nav (addNavClick l) = sidebar_nav l" "sidebar_nav (cloneNode l) = sidebar_nav l"
  "active (addNavClick l) = active l" "active (cloneNode l) = active l"
  "href (addNavClick l) = href l" "href (cloneNode l) = href l"
  "data_link (addNavClick l) = data_link l" "data_link (cloneNode l) = data_link l"
  by (simp_all add: addNavClick_def cloneNode_def)

lemma mark_active_fields [simp]:
  "sidebar_nav (mark_active u l) = sidebar_nav l"
  "href (mark_active u l) = href l"
  "data_link (mark_active u l) = data_link l"
  "listeners (mark_active u l) = listeners l"
  "active (mark_active u l) = (if sidebar_nav l then href l = Some u else active l)"
  by (simp_all add: mark_active_def)

lemma active_after_settled:
  assumes "load_succeeds env req r"
  shows "\<forall>l \<in> set (links (loadPartial_settled env req r s)).
           sidebar_nav l \<longrightarrow> (active l \<longleftrightarrow> href l = Some (req_url req))"
proof -
  from assms obtain status html where r: "r = Resolved status (Some html)" and
      okk: "ok status" and p: "\<not> (req_push req \<and> \<not> pushAllowed env (req_url req))"
    by (auto simp: load_succeeds_def split: fetch_result.splits)
  from r okk have "loadPartial_settled env req r s = loadPartial_then env req html s"
    by (simp add: loadPartial_settled_def)
  with links_then [OF p] show ?thesis
    by auto
qed

lemma spa_run_snoc: "spa_run env s (evs @ [e]) = spa_step env (spa_run env s evs) e"
  by (simp add: spa_run_def)

text \<open>
  Claim C7. After any sequence of events of the router, when the fetch of a request settles
  and the load succeeds, an anchor that matches \<open>.sidebar .nav-link\<close> has the class
  \<open>active\<close> if and only if its \<open>href\<close> attribute is equal, as a string, to the URL of that
  request.
\<close>

theorem setActiveNav_after_load:
  assumes "s = spa_run env s0 evs" and "i < length (pending s)"
    and "load_succeeds env (pending s ! i) r"
  shows "\<forall>l \<in> set (links (spa_run env s0 (evs @ [Settled i r]))).
           sidebar_nav l \<longrightarrow> (active l \<longleftrightarrow> href l = Some (req_url (pending s ! i)))"
  using assms(2) active_after_settled [OF assms(3)]
  unfolding spa_run_snoc assms(1) [symmetric] by simp

theorem setActiveNav_after_load_witness:
  "0 < length (pending (spa_run plain_browser sample_page [LoadPartial (js ''/a'') True])) \<and>
   load_succeeds plain_browser
     (pending (spa_run plain_browser sample_page [LoadPartial (js ''/a'') True]) ! 0)
     (Resolved 200 (Some (js ''A''))) \<and>
   map (\<lambda>l. (href l, sidebar_nav l, active l))
     (links (spa_run plain_browser sample_page
        ([LoadPartial (js ''/a'') True] @ [Settled 0 (Resolved 200 (Some (js ''A'')))]))) =
     [(Some (js ''/a''), True, True), (Some (js ''/a/''), True, False)] \<and>
   list_all (\<lambda>l. active l \<longleftrightarrow> href l = Some (js ''/a''))
     (links (spa_run plain_browser sample_page
        ([LoadPartial (js ''/a'') True] @ [Settled 0 (Resolved 200 (Some (js ''A'')))])))"
proof -
  let ?s = "spa_run plain_browser sample_page [LoadPartial (js ''/a'') True]"
  let ?t = "spa_run plain_browser sample_page
        ([LoadPartial (js ''/a'') True] @ [Settled 0 (Resolved 200 (Some (js ''A'')))])"
  have h1: "0 < length (pending ?s)" by code_simp
  have h2: "load_succeeds plain_browser (pending ?s ! 0) (Resolved 200 (Some (js ''A'')))"
    by code_simp
  have u: "req_url (pending ?s ! 0) = js ''/a''" by code_simp
  have v: "map (\<lambda>l. (href l, sidebar_nav l, active l)) (links ?t) =
     [(Some (js ''/a''), True, True), (Some (js ''/a/''), True, False)]"
    by code_simp
  have sb: "list_all sidebar_nav (links ?t)" by code_simp
  from setActiveNav_after_load [OF refl h1 h2] sb
  have "list_all (\<lambda>l. active l \<longleftrightarrow> href l = Some (js ''/a'')) (links ?t)"
    unfolding u list_all_iff by blast
  with h1 h2 v show ?thesis by blast
qed

lemma bound_once_iff:
  "bound_once s \<longleftrightarrow> (\<forall>l \<in> set (links s). data_link l \<longrightarrow> listeners l = [NavClick])"
  by (auto simp: bound_once_def list_all_iff)

lemma rebind_listeners [simp]:
  "listeners (addNavClick l) = listeners l @ [NavClick]" "listeners (cloneNode l) = []"
  by (simp_all add: addNavClick_def cloneNode_def)

lemma bound_once_init: "bound_once (initNavigationLinks s)"
  by (auto simp: bound_once_iff initNavigationLinks_def links_def)

lemma bound_once_loadPartial: "bound_once s \<Longrightarrow> bound_once (loadPartial u push s)"
  by (auto simp: bound_once_iff loadPartial_def links_def setInnerHTML_def no_links_def)

lemma bound_once_catch:
  "\<forall>l \<in> set (outer_links s). data_link l \<longrightarrow> listeners l = [NavClick] \<Longrightarrow>
   bound_once (loadPartial_catch err s)"
  by (auto simp: bound_once_iff loadPartial_catch_def links_def setInnerHTML_def no_links_def)

lemma bound_once_outer:
  "bound_once s \<Longrightarrow> \<forall>l \<in> set (outer_links s). data_link l \<longrightarrow> listeners l = [NavClick]"
  by (auto simp: bound_once_iff links_def)

lemma bound_once_then: "bound_once s \<Longrightarrow> bound_once (loadPartial_then env req html s)"
proof (cases "req_push req \<and> \<not> pushAllowed env (req_url req)")
  case True
  assume "bound_once s"
  then have "bound_once (loadPartial_catch PushStateError (setInnerHTML html (parseHTML env html) s))"
    by (intro bound_once_catch) (auto simp: setInnerHTML_def dest!: bound_once_outer)
  with True show ?thesis by (simp add: loadPartial_then_def Let_def)
next
  case False
  from links_then [OF False] show ?thesis
    by (auto simp: bound_once_iff)
qed

lemma bound_once_pending [simp]: "bound_once (s\<lparr>pending := p\<rparr>) = bound_once s"
  by (simp add: bound_once_def links_def)

lemma bound_once_settled:
  "bound_once s \<Longrightarrow> bound_once (loadPartial_settled env req r s)"
  by (auto simp: loadPartial_settled_def bound_once_then
           intro!: bound_once_catch dest!: bound_once_outer
           split: fetch_result.splits option.splits)

lemma bound_once_step: "bound_once s \<Longrightarrow> bound_once (spa_step env s e)"
  by (cases e) (auto simp: bound_once_loadPartial bound_once_settled)

lemma bound_once_run: "bound_once s \<Longrightarrow> bound_once (spa_run env s evs)"
  unfolding spa_run_def by (induction evs arbitrary: s) (auto simp: bound_once_step)

lemma click_once: "listeners l = [NavClick] \<Longrightarrow> click l t = navClickHandler l t"
  by (simp add: click_def)

text \<open>
  Claim C8. After the \<open>DOMContentLoaded\<close> handler and any sequence of calls of
  \<open>loadPartial\<close> and settled fetches (so after any number of content swaps, each followed
  by a call of \<open>initNavigationLinks\<close>), and likewise after \<open>N + 1\<close> calls of
  \<open>initNavigationLinks\<close> in a row, every anchor that matches \<open>a[data-link]\<close> has exactly
  one click listener, the one of \<open>initNavigationLinks\<close>, and a click on it runs that
  handler once.
\<close>

theorem initNavigationLinks_one_handler:
  "(\<forall>l \<in> set (links (spa_run env (onDOMContentLoaded currentUrl s0) evs)).
      data_link l \<longrightarrow> listeners l = [NavClick] \<and> click l t = navClickHandler l t) \<and>
   (\<forall>l \<in> set (links ((initNavigationLinks ^^ Suc N) s)).
      data_link l \<longrightarrow> listeners l = [NavClick] \<and> click l t = navClickHandler l t)"
proof -
  have "bound_once (onDOMContentLoaded currentUrl s0)"
    by (simp add: onDOMContentLoaded_def bound_once_init)
  then have "bound_once (spa_run env (onDOMContentLoaded currentUrl s0) evs)"
    by (rule bound_once_run)
  moreover have "bound_once ((initNavigationLinks ^^ Suc N) s)"
    by (simp add: bound_once_init)
  ultimately show ?thesis by (auto simp: bound_once_iff click_once)
qed

theorem initNavigationLinks_one_handler_witness:
  "map (\<lambda>l. (href l, data_link l, listeners l))
     (links (spa_run link_browser (onDOMContentLoaded (js ''/'') sample_page)
        [LoadPartial (js ''/a'') True, Settled 0 (Resolved 200 (Some (js ''A''))),
         LoadPartial (js ''/b'') True, Settled 0 (Resolved 200 (Some (js ''B'')))])) =
     [(Some (js ''/a''), True, [NavClick]), (Some (js ''/a/''), True, [NavClick]),
      (Some (js ''/b''), True, [NavClick])] \<and>
   list_all (\<lambda>l. click l empty_page = navClickHandler l empty_page)
     (links (spa_run link_browser (onDOMContentLoaded (js ''/'') sample_page)
        [LoadPartial (js ''/a'') True, Settled 0 (Resolved 200 (Some (js ''A''))),
         LoadPartial (js ''/b'') True, Settled 0 (Resolved 200 (Some (js ''B'')))])) \<and>
   list_all data_link (links ((initNavigationLinks ^^ Suc 2) sample_page)) \<and>
   list_all (\<lambda>l. listeners l = [NavClick]) (links ((initNavigationLinks ^^ Suc 2) sample_page))"
proof -
  let ?s = "spa_run link_browser (onDOMContentLoaded (js ''/'') sample_page)
        [LoadPartial (js ''/a'') True, Settled 0 (Resolved 200 (Some (js ''A''))),
         LoadPartial (js ''/b'') True, Settled 0 (Resolved 200 (Some (js ''B'')))]"
  have v: "map (\<lambda>l. (href l, data_link l, listeners l)) (links ?s) =
     [(Some (js ''/a''), True, [NavClick]), (Some (js ''/a/''), True, [NavClick]),
      (Some (js ''/b''), True, [NavClick])]"
    by code_simp
  have d: "list_all data_link (links ?s)"
    by code_simp
  have dl: "list_all data_link (links ((initNavigationLinks ^^ Suc 2) sample_page))"
    by code_simp
  note inst = initNavigationLinks_one_handler
    [of link_browser "js ''/''" sample_page
        "[LoadPartial (js ''/a'') True, Settled 0 (Resolved 200 (Some (js ''A''))),
          LoadPartial (js ''/b'') True, Settled 0 (Resolved 200 (Some (js ''B'')))]"
        empty_page 2 sample_page]
  from inst d have c: "list_all (\<lambda>l. click l empty_page = navClickHandler l empty_page) (links ?s)"
    unfolding list_all_iff by blast
  from inst dl have n: "list_all (\<lambda>l. listeners l = [NavClick])
      (links ((initNavigationLinks ^^ Suc 2) sample_page))"
    unfolding list_all_iff by blast
  from v c dl n show ?thesis by blast
qed

section \<open>chatbot.js: the chat session\<close>

subsection \<open>The transcript\<close>

text \<open>
  How a string reaches the DOM: assigned to \<open>innerHTML\<close>, where the browser parses it as
  markup, or to \<open>textContent\<close>, where it becomes one text node, character for character.
\<close>

datatype dom_text = InnerHTML jsstring | TextContent jsstring

text \<open>
  The wrapper element \<open>addMessage\<close> appends: the sender (a class of the wrapper and of the
  message), the source of the avatar, the content and the timestamp, and whether the avatar
  comes before the message.
\<close>

record message =
  msg_sender :: jsstring
  avatar_src :: jsstring
  msg_content :: dom_text
  msg_time :: dom_text
  avatar_first :: bool

text \<open>A child of \<open>#chatbot-messages\<close>; both kinds have the class \<open>message-wrapper\<close>.\<close>

datatype entry = Message message | TypingIndicator

datatype timer_kind = Greeting | Inactivity | FarewellDelay | AutoSubmit

text \<open>A pending timeout: its id, its callback and its delay in milliseconds.\<close>

type_synonym timer = "nat \<times> timer_kind \<times> nat"

datatype chat_request = SendMessage jsstring | ClearChat

text \<open>
  The state of the widget: whether the display style of the chat box is \<open>flex\<close>, the
  globals \<open>greeted\<close>, \<open>sessionActive\<close> and \<open>sessionTimeout\<close> (\<open>None\<close> for \<open>null\<close>), the children
  of \<open>#chatbot-messages\<close>, the value of the input, the pending timeouts and the last id
  given out, the fetches in flight, whether \<open>monitorUserActivity\<close> has run, and the string
  \<open>getCurrentTime\<close> returns now.
\<close>

record chat =
  chat_open :: bool
  greeted :: bool
  sessionActive :: bool
  sessionTimeout :: "nat option"
  transcript :: "entry list"
  input_value :: jsstring
  timers :: "timer list"
  last_timer :: nat
  requests :: "chat_request list"
  monitoring :: bool
  clock :: jsstring

definition bot :: jsstring where
  "bot = js ''bot''"

definition user :: jsstring where
  "user = js ''user''"

text \<open>
  \<open>addMessage(text, sender)\<close>. The text is \<open>None\<close> when the caller passes \<open>undefined\<close>
  (a response without a \<open>response\<close> field).
\<close>

definition addMessage :: "jsstring option \<Rightarrow> jsstring \<Rightarrow> chat \<Rightarrow> chat" where
  "addMessage text sender s =
     (let htmlContent =
            (if sender = bot then markdownToHtml text
             else (case text of Some t \<Rightarrow> t | None \<Rightarrow> js ''undefined''));
          wrapper =
            \<lparr>msg_sender = sender,
             avatar_src = (if sender = bot then js ''/static/img/bot.png''
                           else js ''/static/img/user.png''),
             msg_content = InnerHTML htmlContent,
             msg_time = TextContent (clock s),
             avatar_first = (sender = bot)\<rparr>
      in s\<lparr>transcript := transcript s @ [Message wrapper]\<rparr>)"

definition showTypingIndicator :: "chat \<Rightarrow> chat" where
  "showTypingIndicator s = s\<lparr>transcript := transcript s @ [TypingIndicator]\<rparr>"

definition removeTypingIndicator :: "chat \<Rightarrow> chat" where
  "removeTypingIndicator s = s\<lparr>transcript := remove1 TypingIndicator (transcript s)\<rparr>"

subsection \<open>Timers\<close>

text \<open>\<open>setTimeout\<close> gives out a new positive id; \<open>clearTimeout\<close> drops the timer of an id.\<close>

definition setTimeout :: "timer_kind \<Rightarrow> nat \<Rightarrow> chat \<Rightarrow> nat \<times> chat" where
  "setTimeout kind ms s =
     (let tid = Suc (last_timer s)
      in (tid, s\<lparr>timers := timers s @ [(tid, kind, ms)], last_timer := tid\<rparr>))"

definition clearTimeout :: "nat \<Rightarrow> chat \<Rightarrow> chat" where
  "clearTimeout tid s = s\<lparr>timers := filter (\<lambda>t. fst t \<noteq> tid) (timers s)\<rparr>"

definition INACTIVITY_TIMEOUT :: nat where
  "INACTIVITY_TIMEOUT = 2 * 60 * 1000"

text \<open>\<open>resetInactivityTimer()\<close>. A timer id is positive, so a handle that is set is truthy.\<close>

definition resetInactivityTimer :: "chat \<Rightarrow> chat" where
  "resetInactivityTimer s =
     (let s1 = (case sessionTimeout s of Some tid \<Rightarrow> clearTimeout tid s | None \<Rightarrow> s)
      in if sessionActive s1
         then (let (tid, s2) = setTimeout Inactivity INACTIVITY_TIMEOUT s1
               in s2\<lparr>sessionTimeout := Some tid\<rparr>)
         else s1)"

subsection \<open>The handlers\<close>

definition greeting :: jsstring where
  "greeting =
     [0xD83D, 0xDC4B] @ js '' '' @ [0x00A1] @
     js ''Hola! Soy el Asistente Virtual de Becas UTPL. Estoy aqu'' @ [0x00ED] @
     js '' para ayudarte con postulaci'' @ [0x00F3] @ js ''n, renovaci'' @ [0x00F3] @
     js ''n, requisitos o cualquier consulta. '' @ [0x00BF] @ js ''En qu'' @ [0x00E9] @
     js '' puedo ayudarte hoy?''"

definition farewell :: jsstring where
  "farewell =
     [0xD83D, 0xDC4B] @
     js '' He notado que has estado inactivo. Por motivos de seguridad y eficiencia, voy a cerrar esta conversaci'' @
     [0x00F3] @ js ''n. Si necesitas m'' @ [0x00E1] @
     js ''s ayuda, no dudes en escribirme de nuevo. '' @ [0x00A1] @
     js ''Que tengas un excelente d'' @ [0x00ED] @ js ''a!''"

definition server_error_prefix :: jsstring where
  "server_error_prefix = [0x26A0, 0xFE0F] @ js '' ''"

definition server_error_default :: jsstring where
  "server_error_default = js ''Hubo un error al procesar tu consulta.''"

definition connection_error :: jsstring where
  "connection_error =
     [0x274C] @ js '' Error de conexi'' @ [0x00F3] @ js ''n. Por favor intenta de nuevo.''"

text \<open>
  The two click listeners of \<open>chatBtn\<close>, in the order of registration: the toggle, then
  the listener of the session timer, which reads the display style the toggle has just set.
\<close>

definition chatBtn_toggle :: "chat \<Rightarrow> chat" where
  "chatBtn_toggle s =
     (if chat_open s then s\<lparr>chat_open := False\<rparr>
      else (let s1 = s\<lparr>chat_open := True\<rparr>
            in if \<not> greeted s1 then (snd (setTimeout Greeting 300 s1))\<lparr>greeted := True\<rparr>
               else s1))"

definition chatBtn_timer :: "chat \<Rightarrow> chat" where
  "chatBtn_timer s =
     (if \<not> chat_open s then resetInactivityTimer s
      else (case sessionTimeout s of Some tid \<Rightarrow> clearTimeout tid s | None \<Rightarrow> s))"

definition chatBtn_click :: "chat \<Rightarrow> chat" where
  "chatBtn_click s = chatBtn_timer (chatBtn_toggle s)"

definition closeBtn_click :: "chat \<Rightarrow> chat" where
  "closeBtn_click s = s\<lparr>chat_open := False\<rparr>"

text \<open>\<open>sendMessage()\<close>, up to the \<open>await\<close> of the fetch.\<close>

definition sendMessage :: "chat \<Rightarrow> chat" where
  "sendMessage s =
     (let text = trim (input_value s) in
      if text = [] then s
      else (let s1 = resetInactivityTimer s;
                s2 = addMessage (Some text) user s1;
                s3 = s2\<lparr>input_value := []\<rparr>;
                s4 = showTypingIndicator s3
            in s4\<lparr>requests := requests s4 @ [SendMessage text]\<rparr>))"

text \<open>
  How the fetch of \<open>/send-message/\<close> settles: a reply with \<open>success\<close> and its \<open>response\<close>, a
  reply without \<open>success\<close> and its \<open>error\<close>, or no usable reply (the fetch rejects or the body
  is not JSON). A reply is a JSON object of the shape the server sends: \<open>response\<close> and
  \<open>error\<close> are strings when present, and the sources, which are read and not shown, list
  their pages in arrays.
\<close>

datatype send_result = Replied "jsstring option" | Refused "jsstring option" | NoReply

definition sendMessage_settled :: "send_result \<Rightarrow> chat \<Rightarrow> chat" where
  "sendMessage_settled r s =
     (case r of
        Replied response \<Rightarrow>
          resetInactivityTimer (addMessage response bot (removeTypingIndicator s))
      | Refused err \<Rightarrow>
          addMessage
            (Some (server_error_prefix @
               (case err of
                  Some e \<Rightarrow> if e \<noteq> [] then e else server_error_default
                | None \<Rightarrow> server_error_default)))
            bot (removeTypingIndicator s)
      | NoReply \<Rightarrow> addMessage (Some connection_error) bot (removeTypingIndicator s))"

text \<open>
  \<open>handleSessionTimeout()\<close> runs in three parts: up to the \<open>await\<close> of the two seconds; from
  there, through \<open>clearConversation()\<close>, to the \<open>await\<close> of the fetch of \<open>/clear-chat/\<close>; and,
  once that fetch has settled, the rest of \<open>clearConversation\<close> and the two assignments.
\<close>

definition handleSessionTimeout :: "chat \<Rightarrow> chat" where
  "handleSessionTimeout s =
     snd (setTimeout FarewellDelay 2000
            (addMessage (Some farewell) bot (s\<lparr>sessionActive := False\<rparr>)))"

text \<open>\<open>clearConversation()\<close>, up to the \<open>await\<close> of its fetch.\<close>

definition clearConversation :: "chat \<Rightarrow> chat" where
  "clearConversation s = s\<lparr>requests := requests s @ [ClearChat]\<rparr>"

definition handleSessionTimeout_delayed :: "chat \<Rightarrow> chat" where
  "handleSessionTimeout_delayed s = clearConversation s"

datatype clear_result = ClearReplied bool | ClearRejected

text \<open>
  \<open>clearConversation\<close> after its fetch: on \<open>success\<close> every \<open>.message-wrapper\<close> but the last
  is removed. A rejection is logged and thrown again, and caught by the caller.
\<close>

definition clearConversation_settled :: "clear_result \<Rightarrow> chat \<Rightarrow> chat" where
  "clearConversation_settled r s =
     (case r of
        ClearReplied success \<Rightarrow>
          if success
          then s\<lparr>transcript := (if transcript s = [] then [] else [last (transcript s)])\<rparr>
          else s
      | ClearRejected \<Rightarrow> s)"

definition handleSessionTimeout_settled :: "clear_result \<Rightarrow> chat \<Rightarrow> chat" where
  "handleSessionTimeout_settled r s =
     (clearConversation_settled r s)\<lparr>sessionActive := True, greeted := False\<rparr>"

text \<open>
  \<open>monitorUserActivity()\<close>, called on \<open>DOMContentLoaded\<close>, registers three listeners with
  the same body, \<open>monitor\<close>.
\<close>

definition monitorUserActivity :: "chat \<Rightarrow> chat" where
  "monitorUserActivity s = s\<lparr>monitoring := True\<rparr>"

definition monitor :: "chat \<Rightarrow> chat" where
  "monitor s = (if monitoring s \<and> sessionActive s then resetInactivityTimer s else s)"

text \<open>The callback of a timeout.\<close>

fun run_timer :: "timer_kind \<Rightarrow> chat \<Rightarrow> chat" where
  "run_timer Greeting s = addMessage (Some greeting) bot s"
| "run_timer Inactivity s = handleSessionTimeout s"
| "run_timer FarewellDelay s = handleSessionTimeout_delayed s"
| "run_timer AutoSubmit s = (if trim (input_value s) \<noteq> [] then sendMessage s else s)"

subsection \<open>Events\<close>

text \<open>
  \<open>DomReady\<close>: \<open>DOMContentLoaded\<close>. \<open>ChatBtnClick\<close>, \<open>CloseBtnClick\<close>, \<open>ChatBoxClick\<close>,
  \<open>SendBtnClick\<close>: the click listeners of the four elements. \<open>EnterKey\<close>: \<open>keypress\<close> of
  Enter in the input. \<open>Typed v\<close>: an \<open>input\<close> event that leaves the value \<open>v\<close>.
  \<open>VoiceInterim t\<close>, \<open>VoiceFinal t\<close>: an interim and a final transcript of the speech
  recognition.
  \<open>TimerFired tid\<close>: the pending timeout \<open>tid\<close> fires. \<open>SendSettled i r\<close>, \<open>ClearSettled i r\<close>:
  the fetch at position \<open>i\<close> of those in flight settles. \<open>ClockTick t\<close>: the time changes.
\<close>

datatype chat_event =
    DomReady | ChatBtnClick | CloseBtnClick | ChatBoxClick | SendBtnClick | EnterKey
  | Typed jsstring | VoiceInterim jsstring | VoiceFinal jsstring | TimerFired nat
  | SendSettled nat send_result | ClearSettled nat clear_result | ClockTick jsstring

definition drop_request :: "nat \<Rightarrow> chat \<Rightarrow> chat" where
  "drop_request i s = s\<lparr>requests := take i (requests s) @ drop (Suc i) (requests s)\<rparr>"

fun chat_step :: "chat \<Rightarrow> chat_event \<Rightarrow> chat" where
  "chat_step s DomReady = monitorUserActivity s"
| "chat_step s ChatBtnClick = chatBtn_click s"
| "chat_step s CloseBtnClick = closeBtn_click s"
| "chat_step s ChatBoxClick = monitor s"
| "chat_step s SendBtnClick = monitor (sendMessage s)"
| "chat_step s EnterKey = sendMessage s"
| "chat_step s (Typed v) = monitor (s\<lparr>input_value := v\<rparr>)"
| "chat_step s (VoiceInterim t) = s\<lparr>input_value := t\<rparr>"
| "chat_step s (VoiceFinal t) =
     (if t \<noteq> [] then snd (setTimeout AutoSubmit 500 (s\<lparr>input_value := t\<rparr>)) else s)"
| "chat_step s (TimerFired tid) =
     (case find (\<lambda>t. fst t = tid) (timers s) of
        None \<Rightarrow> s
      | Some t \<Rightarrow> run_timer (fst (snd t)) (clearTimeout tid s))"
| "chat_step s (SendSettled i r) =
     (if i < length (requests s) \<and> requests s ! i \<noteq> ClearChat
      then sendMessage_settled r (drop_request i s) else s)"
| "chat_step s (ClearSettled i r) =
     (if i < length (requests s) \<and> requests s ! i = ClearChat
      then handleSessionTimeout_settled r (drop_request i s) else s)"
| "chat_step s (ClockTick t) = s\<lparr>clock := t\<rparr>"

definition chat_run :: "chat \<Rightarrow> chat_event list \<Rightarrow> chat" where
  "chat_run s evs = foldl chat_step s evs"

text \<open>The state when the script has run: the chat box hidden, no timer, nothing sent.\<close>

definition chat_init :: chat where
  "chat_init =
     \<lparr>chat_open = False, greeted = False, sessionActive = True, sessionTimeout = None,
      transcript = [], input_value = [], timers = [], last_timer = 0, requests = [],
      monitoring = False, clock = []\<rparr>"

subsection \<open>Predicates on the session\<close>

text \<open>
  \<open>inactivity_timers s\<close>: the pending timeouts whose callback is \<open>handleSessionTimeout\<close>.
  \<open>in_progress s\<close>: the number of runs of \<open>handleSessionTimeout\<close> that wait for their two
  seconds or for their fetch. \<open>chat_inv s\<close>: the ids of the pending timeouts are distinct and
  were given out; a pending timeout is the inactivity timer exactly when \<open>sessionTimeout\<close>
  holds its id; no run of \<open>handleSessionTimeout\<close> is in progress while \<open>sessionActive\<close>, and
  one is, with no inactivity timer pending, while not.
\<close>

definition inactivity_timers :: "chat \<Rightarrow> timer list" where
  "inactivity_timers s = filter (\<lambda>t. fst (snd t) = Inactivity) (timers s)"

definition in_progress :: "chat \<Rightarrow> nat" where
  "in_progress s =
     length (filter (\<lambda>t. fst (snd t) = FarewellDelay) (timers s)) +
     length (filter (\<lambda>r. r = ClearChat) (requests s))"

definition chat_inv :: "chat \<Rightarrow> bool" where
  "chat_inv s \<longleftrightarrow>
     distinct (map fst (timers s)) \<and>
     (\<forall>t \<in> set (timers s). fst t \<le> last_timer s) \<and>
     (\<forall>tid. sessionTimeout s = Some tid \<longrightarrow> tid \<le> last_timer s) \<and>
     (\<forall>t \<in> set (timers s). fst (snd t) = Inactivity \<longleftrightarrow> sessionTimeout s = Some (fst t)) \<and>
     (if sessionActive s then in_progress s = 0
      else in_progress s = 1 \<and> inactivity_timers s = [])"

text \<open>
  \<open>reset_event e\<close>: the events of the user that reset the timer (a keystroke, a click in
  the chat box, a click on send, Enter, a click on the chat button).
  \<open>calls_reset s e\<close>: the handler of \<open>e\<close> calls \<open>resetInactivityTimer\<close>: the events above,
  the timeout of the automatic submit of a voice message, and the arrival of a reply with
  \<open>success\<close> to a message.
\<close>

fun reset_event :: "chat_event \<Rightarrow> bool" where
  "reset_event (Typed v) = True"
| "reset_event ChatBoxClick = True"
| "reset_event SendBtnClick = True"
| "reset_event EnterKey = True"
| "reset_event ChatBtnClick = True"
| "reset_event e = False"

fun calls_reset :: "chat \<Rightarrow> chat_event \<Rightarrow> bool" where
  "calls_reset s (SendSettled i r) = (case r of Replied response \<Rightarrow> True | _ \<Rightarrow> False)"
| "calls_reset s (TimerFired tid) =
     (case find (\<lambda>t. fst t = tid) (timers s) of
        None \<Rightarrow> False
      | Some t \<Rightarrow> fst (snd t) = AutoSubmit)"
| "calls_reset s e = reset_event e"

text \<open>The wrappers of the farewell and of the greeting, appended at the time \<open>now\<close>.\<close>

definition farewell_message :: "jsstring \<Rightarrow> entry" where
  "farewell_message now =
     Message \<lparr>msg_sender = bot, avatar_src = js ''/static/img/bot.png'',
        msg_content = InnerHTML (markdownToHtml (Some farewell)),
        msg_time = TextContent now, avatar_first = True\<rparr>"

definition greeting_message :: "jsstring \<Rightarrow> entry" where
  "greeting_message now =
     Message \<lparr>msg_sender = bot, avatar_src = js ''/static/img/bot.png'',
        msg_content = InnerHTML (markdownToHtml (Some greeting)),
        msg_time = TextContent now, avatar_first = True\<rparr>"

text \<open>
  Sample runs. \<open>timeout_trace\<close>: the chat is opened, a key is typed, and the inactivity
  timer fires. \<open>idle_open\<close>: the state before that timer fires, the chat open.
  \<open>timed_out\<close>: the state after the timer, the delay and the clearing of the conversation.
  \<open>late_reply_trace\<close>: after the timeout a message is typed and sent during the farewell,
  the delay passes and the conversation is cleared, while the reply to the message is still
  on its way.
\<close>

definition timeout_trace :: "chat_event list" where
  "timeout_trace = [DomReady, ChatBtnClick, Typed (js ''h''), TimerFired 2]"

definition idle_open :: chat where
  "idle_open = chat_run chat_init [DomReady, ChatBtnClick, Typed (js ''h'')]"

definition timed_out :: chat where
  "timed_out =
     chat_step (chat_step (chat_step idle_open (TimerFired 2)) (TimerFired 3))
       (ClearSettled 0 (ClearReplied True))"

definition late_reply_trace :: "chat_event list" where
  "late_reply_trace =
     timeout_trace @
     [Typed (js ''x''), EnterKey, TimerFired 3, ClearSettled 1 (ClearReplied True)]"

subsection \<open>The invariant of the session\<close>

lemma chat_inv_cong:
  "timers s' = timers s \<Longrightarrow> last_timer s' = last_timer s \<Longrightarrow>
   sessionTimeout s' = sessionTimeout s \<Longrightarrow> sessionActive s' = sessionActive s \<Longrightarrow>
   requests s' = requests s \<Longrightarrow> chat_inv s' = chat_inv s"
  by (simp add: chat_inv_def in_progress_def inactivity_timers_def)

lemma addMessage_core [simp]:
  "timers (addMessage t x s) = timers s" "last_timer (addMessage t x s) = last_timer s"
  "sessionTimeout (addMessage t x s) = sessionTimeout s"
  "sessionActive (addMessage t x s) = sessionActive s"
  "requests (addMessage t x s) = requests s"
  "greeted (addMessage t x s) = greeted s" "chat_open (addMessage t x s) = chat_open s"
  "monitoring (addMessage t x s) = monitoring s"
  "input_value (addMessage t x s) = input_value s"
  by (simp_all add: addMessage_def Let_def)

lemma typing_core [simp]:
  "timers (showTypingIndicator s) = timers s" "last_timer (showTypingIndicator s) = last_timer s"
  "sessionTimeout (showTypingIndicator s) = sessionTimeout s"
  "sessionActive (showTypingIndicator s) = sessionActive s"
  "requests (showTypingIndicator s) = requests s"
  "timers (removeTypingIndicator s) = timers s"
  "last_timer (removeTypingIndicator s) = last_timer s"
  "sessionTimeout (removeTypingIndicator s) = sessionTimeout s"
  "sessionActive (removeTypingIndicator s) = sessionActive s"
  "requests (removeTypingIndicator s) = requests s"
  by (simp_all add: showTypingIndicator_def removeTypingIndicator_def)

lemma chat_inv_addMessage [simp]: "chat_inv (addMessage t x s) = chat_inv s"
  by (rule chat_inv_cong) simp_all

lemma chat_inv_typing [simp]:
  "chat_inv (showTypingIndicator s) = chat_inv s"
  "chat_inv (removeTypingIndicator s) = chat_inv s"
  by (rule chat_inv_cong; simp)+

lemma chat_inv_fields [simp]:
  "chat_inv (s\<lparr>input_value := v\<rparr>) = chat_inv s"
  "chat_inv (s\<lparr>monitoring := b\<rparr>) = chat_inv s"
  "chat_inv (s\<lparr>clock := c\<rparr>) = chat_inv s"
  "chat_inv (s\<lparr>chat_open := b\<rparr>) = chat_inv s"
  "chat_inv (s\<lparr>greeted := b\<rparr>) = chat_inv s"
  "chat_inv (s\<lparr>transcript := tr\<rparr>) = chat_inv s"
  by (rule chat_inv_cong; simp)+

text \<open>Counting in a list of timers with distinct ids.\<close>

lemma filter_id_count:
  "distinct (map fst ts) \<Longrightarrow> t \<in> set ts \<Longrightarrow>
   length (filter P ts) =
     length (filter P (filter (\<lambda>u. fst u \<noteq> fst t) ts)) + (if P t then 1 else 0)"
proof (induction ts)
  case Nil
  then show ?case by simp
next
  case (Cons a ts)
  show ?case
  proof (cases "a = t")
    case True
    with Cons.prems have "\<forall>u \<in> set ts. fst u \<noteq> fst t" by (auto simp: image_iff)
    then have "filter (\<lambda>u. fst u \<noteq> fst t) ts = ts" by (simp add: filter_id_conv)
    with True show ?thesis by simp
  next
    case False
    with Cons.prems have t: "t \<in> set ts" and ne: "fst a \<noteq> fst t" and d: "distinct (map fst ts)"
      by (auto simp: image_iff)
    from Cons.IH [OF d t] ne show ?thesis by simp
  qed
qed

lemma filter_id_absent:
  "\<forall>u \<in> set ts. fst u \<noteq> tid \<Longrightarrow> filter (\<lambda>u. fst u \<noteq> tid) ts = ts"
  by (simp add: filter_id_conv)

lemma find_timer:
  "find (\<lambda>t. fst t = tid) ts = Some t \<Longrightarrow> t \<in> set ts \<and> fst t = tid"
  by (auto simp: find_Some_iff)

lemma filter_filter_same:
  "\<forall>t \<in> set ts. P t \<longrightarrow> Q t \<Longrightarrow> filter (\<lambda>t. Q t \<and> P t) ts = filter P ts"
  by (induction ts) auto

lemma chat_inv_clear_handle:
  assumes "chat_inv s" and "sessionTimeout s = Some tid"
  shows "chat_inv (clearTimeout tid s)" and "inactivity_timers (clearTimeout tid s) = []"
proof -
  from assms have far: "\<forall>t \<in> set (timers s). fst (snd t) = FarewellDelay \<longrightarrow> fst t \<noteq> tid"
    by (auto simp: chat_inv_def)
  from assms have ina: "\<forall>t \<in> set (timers s). fst (snd t) = Inactivity \<longrightarrow> fst t = tid"
    by (auto simp: chat_inv_def)
  then show i: "inactivity_timers (clearTimeout tid s) = []"
    by (auto simp: inactivity_timers_def clearTimeout_def filter_empty_conv)
  have fp: "in_progress (clearTimeout tid s) = in_progress s"
    using far by (simp add: in_progress_def clearTimeout_def filter_filter_same)
  have ia: "inactivity_timers s = [] \<Longrightarrow> inactivity_timers (clearTimeout tid s) = []"
    by (rule i)
  from assms(1) show "chat_inv (clearTimeout tid s)"
    unfolding chat_inv_def fp using i
    by (auto simp: clearTimeout_def distinct_map_filter)
qed

lemma chat_inv_setTimeout:
  assumes "chat_inv s" and "kind = Greeting \<or> kind = AutoSubmit"
  shows "chat_inv (snd (setTimeout kind ms s))"
  using assms
  by (auto simp: chat_inv_def setTimeout_def Let_def in_progress_def inactivity_timers_def
           image_iff)

lemma chat_inv_reset:
  assumes "chat_inv s"
  shows "chat_inv (resetInactivityTimer s)"
proof -
  define s1 where "s1 = (case sessionTimeout s of Some tid \<Rightarrow> clearTimeout tid s | None \<Rightarrow> s)"
  have s1: "chat_inv s1" and none: "inactivity_timers s1 = []"
  proof -
    show "chat_inv s1"
      using assms by (auto simp: s1_def chat_inv_clear_handle split: option.splits)
    show "inactivity_timers s1 = []"
    proof (cases "sessionTimeout s")
      case None
      with assms show ?thesis
        by (auto simp: s1_def chat_inv_def inactivity_timers_def filter_empty_conv)
    next
      case (Some tid)
      with assms show ?thesis by (simp add: s1_def chat_inv_clear_handle)
    qed
  qed
  have r: "resetInactivityTimer s =
      (if sessionActive s1
       then s1\<lparr>timers := timers s1 @ [(Suc (last_timer s1), Inactivity, INACTIVITY_TIMEOUT)],
               last_timer := Suc (last_timer s1),
               sessionTimeout := Some (Suc (last_timer s1))\<rparr>
       else s1)"
    by (simp add: resetInactivityTimer_def s1_def setTimeout_def Let_def)
  show ?thesis
  proof (cases "sessionActive s1")
    case False
    with r s1 show ?thesis by simp
  next
    case True
    from none have k: "\<forall>t \<in> set (timers s1). fst (snd t) \<noteq> Inactivity"
      by (auto simp: inactivity_timers_def filter_empty_conv)
    with s1 True show ?thesis
      unfolding r
      by (auto simp: chat_inv_def in_progress_def inactivity_timers_def image_iff)
  qed
qed

lemma reset_inactive:
  "\<not> sessionActive s \<Longrightarrow>
   set (inactivity_timers (resetInactivityTimer s)) \<subseteq> set (inactivity_timers s) \<and>
   sessionActive (resetInactivityTimer s) = False"
  by (auto simp: resetInactivityTimer_def clearTimeout_def inactivity_timers_def
           split: option.splits)

lemma chat_inv_init: "chat_inv chat_init"
  by (simp add: chat_inv_def chat_init_def in_progress_def inactivity_timers_def)

lemma inactivity_timers_fields [simp]:
  "inactivity_timers (s\<lparr>requests := rq\<rparr>) = inactivity_timers s"
  "inactivity_timers (s\<lparr>input_value := v\<rparr>) = inactivity_timers s"
  "inactivity_timers (s\<lparr>transcript := tr\<rparr>) = inactivity_timers s"
  "inactivity_timers (s\<lparr>sessionActive := a\<rparr>) = inactivity_timers s"
  "inactivity_timers (s\<lparr>greeted := g\<rparr>) = inactivity_timers s"
  "inactivity_timers (s\<lparr>chat_open := b\<rparr>) = inactivity_timers s"
  "inactivity_timers (s\<lparr>monitoring := b\<rparr>) = inactivity_timers s"
  "inactivity_timers (s\<lparr>clock := c\<rparr>) = inactivity_timers s"
  "inactivity_timers (addMessage t x s) = inactivity_timers s"
  "inactivity_timers (showTypingIndicator s) = inactivity_timers s"
  "inactivity_timers (removeTypingIndicator s) = inactivity_timers s"
  by (simp_all add: inactivity_timers_def)

lemma chat_inv_requests_send:
  "chat_inv (s\<lparr>requests := requests s @ [SendMessage t]\<rparr>) = chat_inv s"
  by (simp add: chat_inv_def in_progress_def)

lemma chat_inv_sendMessage:
  assumes "chat_inv s"
  shows "chat_inv (sendMessage s)"
proof (cases "trim (input_value s) = []")
  case True
  with assms show ?thesis by (simp add: sendMessage_def)
next
  case False
  define s4 where "s4 = showTypingIndicator
      ((addMessage (Some (trim (input_value s))) user (resetInactivityTimer s))
         \<lparr>input_value := []\<rparr>)"
  from assms have "chat_inv s4" by (simp add: s4_def chat_inv_reset)
  then have "chat_inv (s4\<lparr>requests := requests s4 @ [SendMessage (trim (input_value s))]\<rparr>)"
    by (simp only: chat_inv_requests_send)
  with False show ?thesis by (simp add: sendMessage_def Let_def s4_def)
qed

lemma chat_inv_monitor: "chat_inv s \<Longrightarrow> chat_inv (monitor s)"
  by (simp add: monitor_def chat_inv_reset)

lemma chat_inv_toggle: "chat_inv s \<Longrightarrow> chat_inv (chatBtn_toggle s)"
  using chat_inv_setTimeout [of "s\<lparr>chat_open := True\<rparr>" Greeting 300]
  by (simp add: chatBtn_toggle_def Let_def)

lemma chat_inv_chatBtn_timer: "chat_inv s \<Longrightarrow> chat_inv (chatBtn_timer s)"
  by (auto simp: chatBtn_timer_def chat_inv_reset chat_inv_clear_handle split: option.splits)

lemma chat_inv_chatBtn_click: "chat_inv s \<Longrightarrow> chat_inv (chatBtn_click s)"
  by (simp add: chatBtn_click_def chat_inv_toggle chat_inv_chatBtn_timer)

text \<open>A timer that fires leaves the list of pending timers.\<close>

lemma chat_inv_fired:
  assumes "chat_inv s" and "t \<in> set (timers s)"
  shows "fst (snd t) = Inactivity \<Longrightarrow>
           sessionActive s \<and> in_progress (clearTimeout (fst t) s) = 0 \<and>
           inactivity_timers (clearTimeout (fst t) s) = [] \<and>
           sessionTimeout s = Some (fst t)"
    and "fst (snd t) = FarewellDelay \<Longrightarrow>
           \<not> sessionActive s \<and>
           length (filter (\<lambda>u. fst (snd u) = FarewellDelay) (timers (clearTimeout (fst t) s))) = 0 \<and>
           length (filter (\<lambda>r. r = ClearChat) (requests s)) = 0"
    and "fst (snd t) \<noteq> FarewellDelay \<Longrightarrow>
           in_progress (clearTimeout (fst t) s) = in_progress s"
    and "distinct (map fst (timers (clearTimeout (fst t) s)))"
    and "\<forall>u \<in> set (timers (clearTimeout (fst t) s)). fst u \<le> last_timer s"
    and "\<forall>u \<in> set (timers (clearTimeout (fst t) s)).
           fst (snd u) = Inactivity \<longleftrightarrow> sessionTimeout s = Some (fst u)"
    and "inactivity_timers s = [] \<Longrightarrow> inactivity_timers (clearTimeout (fst t) s) = []"
proof -
  from assms(1) have d: "distinct (map fst (timers s))" by (simp add: chat_inv_def)
  note cnt = filter_id_count [OF d assms(2), of "\<lambda>u. fst (snd u) = FarewellDelay"]
  show "distinct (map fst (timers (clearTimeout (fst t) s)))"
    using d by (simp add: clearTimeout_def distinct_map_filter)
  show "\<forall>u \<in> set (timers (clearTimeout (fst t) s)). fst u \<le> last_timer s"
    using assms(1) by (auto simp: chat_inv_def clearTimeout_def)
  show "\<forall>u \<in> set (timers (clearTimeout (fst t) s)).
           fst (snd u) = Inactivity \<longleftrightarrow> sessionTimeout s = Some (fst u)"
    using assms(1) by (auto simp: chat_inv_def clearTimeout_def)
  show "inactivity_timers s = [] \<Longrightarrow> inactivity_timers (clearTimeout (fst t) s) = []"
    by (auto simp: inactivity_timers_def clearTimeout_def filter_empty_conv)
  show "fst (snd t) \<noteq> FarewellDelay \<Longrightarrow>
           in_progress (clearTimeout (fst t) s) = in_progress s"
    using cnt by (simp add: in_progress_def clearTimeout_def conj_commute)
  {
    assume k: "fst (snd t) = FarewellDelay"
    from k cnt have pos: "0 < length (filter (\<lambda>u. fst (snd u) = FarewellDelay) (timers s))"
      by simp
    with assms(1) have na: "\<not> sessionActive s" and one: "in_progress s = 1"
      by (auto simp: chat_inv_def in_progress_def split: if_splits)
    from one pos cnt k show "\<not> sessionActive s \<and>
           length (filter (\<lambda>u. fst (snd u) = FarewellDelay) (timers (clearTimeout (fst t) s))) = 0 \<and>
           length (filter (\<lambda>r. r = ClearChat) (requests s)) = 0"
      using na by (simp add: in_progress_def clearTimeout_def conj_commute)
  }
  {
    assume k: "fst (snd t) = Inactivity"
    with assms have h: "sessionTimeout s = Some (fst t)" by (auto simp: chat_inv_def)
    from k assms(2) have "inactivity_timers s \<noteq> []"
      by (auto simp: inactivity_timers_def filter_empty_conv)
    with assms(1) have a: "sessionActive s" and z: "in_progress s = 0"
      by (auto simp: chat_inv_def split: if_splits)
    from chat_inv_clear_handle(2) [OF assms(1) h] z k cnt a h
    show "sessionActive s \<and> in_progress (clearTimeout (fst t) s) = 0 \<and>
           inactivity_timers (clearTimeout (fst t) s) = [] \<and>
           sessionTimeout s = Some (fst t)"
      by (simp add: in_progress_def clearTimeout_def conj_commute)
  }
qed

lemma chat_inv_clearTimeout_other:
  assumes "chat_inv s" and "t \<in> set (timers s)" and "fst (snd t) \<noteq> FarewellDelay"
    and "fst (snd t) \<noteq> Inactivity"
  shows "chat_inv (clearTimeout (fst t) s)"
proof -
  note f = chat_inv_fired [OF assms(1,2)]
  have [simp]: "last_timer (clearTimeout (fst t) s) = last_timer s"
    "sessionTimeout (clearTimeout (fst t) s) = sessionTimeout s"
    "sessionActive (clearTimeout (fst t) s) = sessionActive s"
    by (simp_all add: clearTimeout_def)
  from assms(1) f(3) [OF assms(3)] f(4) f(5) f(6) f(7) show ?thesis
    unfolding chat_inv_def by (auto split: if_splits)
qed

lemma chat_inv_timeout_started:
  assumes "chat_inv s" and "t \<in> set (timers s)" and "fst (snd t) = Inactivity"
  shows "chat_inv (handleSessionTimeout (clearTimeout (fst t) s))"
proof -
  note f = chat_inv_fired [OF assms(1,2)]
  let ?c = "clearTimeout (fst t) s"
  have c [simp]: "last_timer ?c = last_timer s" "sessionTimeout ?c = sessionTimeout s"
    "requests ?c = requests s"
    by (simp_all add: clearTimeout_def)
  from f(1) [OF assms(3)] have z: "in_progress ?c = 0" and i: "inactivity_timers ?c = []"
    and h: "sessionTimeout s = Some (fst t)" by simp_all
  from assms(1) h have le: "fst t \<le> last_timer s" by (auto simp: chat_inv_def)
  from z have z1: "filter (\<lambda>u. fst (snd u) = FarewellDelay) (timers ?c) = []"
    and z2: "filter (\<lambda>r. r = ClearChat) (requests s) = []"
    by (simp_all add: in_progress_def)
  from i have i1: "filter (\<lambda>u. fst (snd u) = Inactivity) (timers ?c) = []"
    by (simp add: inactivity_timers_def)
  from f(4) f(5) f(6) z1 z2 i1 h le show ?thesis
    unfolding chat_inv_def handleSessionTimeout_def setTimeout_def Let_def
      in_progress_def inactivity_timers_def
    by (auto simp: image_iff)
qed

lemma chat_inv_timeout_delayed:
  assumes "chat_inv s" and "t \<in> set (timers s)" and "fst (snd t) = FarewellDelay"
  shows "chat_inv (handleSessionTimeout_delayed (clearTimeout (fst t) s))"
proof -
  note f = chat_inv_fired [OF assms(1,2)]
  let ?c = "clearTimeout (fst t) s"
  have c [simp]: "last_timer ?c = last_timer s" "sessionTimeout ?c = sessionTimeout s"
    "requests ?c = requests s" "sessionActive ?c = sessionActive s"
    by (simp_all add: clearTimeout_def)
  from assms(1) f(2) [OF assms(3)] have i: "inactivity_timers s = []"
    by (auto simp: chat_inv_def split: if_splits)
  from assms(1) f(2) [OF assms(3)] f(4) f(5) f(6) f(7) [OF i] show ?thesis
    unfolding chat_inv_def handleSessionTimeout_delayed_def clearConversation_def in_progress_def
    by (auto split: if_splits)
qed

lemma chat_inv_timer_fired:
  assumes "chat_inv s"
  shows "chat_inv (chat_step s (TimerFired tid))"
proof (cases "find (\<lambda>t. fst t = tid) (timers s)")
  case None
  with assms show ?thesis by simp
next
  case (Some t)
  then have t: "t \<in> set (timers s)" and tid: "fst t = tid" by (auto dest: find_timer)
  show ?thesis
  proof (cases "fst (snd t)")
    case Greeting
    with chat_inv_clearTimeout_other [OF assms t] Some tid show ?thesis by simp
  next
    case Inactivity
    with chat_inv_timeout_started [OF assms t] Some tid show ?thesis by simp
  next
    case FarewellDelay
    with chat_inv_timeout_delayed [OF assms t] Some tid show ?thesis by simp
  next
    case AutoSubmit
    with chat_inv_clearTimeout_other [OF assms t] Some tid show ?thesis
      by (simp add: chat_inv_sendMessage)
  qed
qed

lemma filter_drop_nth:
  "i < length xs \<Longrightarrow>
   length (filter P xs) =
     length (filter P (take i xs @ drop (Suc i) xs)) + (if P (xs ! i) then 1 else 0)"
proof -
  assume "i < length xs"
  then have "xs = take i xs @ xs ! i # drop (Suc i) xs" by (rule id_take_nth_drop)
  then have "length (filter P xs) = length (filter P (take i xs @ xs ! i # drop (Suc i) xs))"
    by simp
  then show ?thesis by simp
qed

lemma chat_inv_send_settled:
  assumes "chat_inv s"
  shows "chat_inv (chat_step s (SendSettled i r))"
proof (cases "i < length (requests s) \<and> requests s ! i \<noteq> ClearChat")
  case False
  with assms show ?thesis by auto
next
  case True
  with filter_drop_nth [of i "requests s" "\<lambda>r. r = ClearChat"]
  have "in_progress (drop_request i s) = in_progress s"
    by (simp add: in_progress_def drop_request_def)
  with assms have "chat_inv (drop_request i s)"
    by (simp add: chat_inv_def drop_request_def)
  with True show ?thesis
    by (cases r) (simp_all add: sendMessage_settled_def chat_inv_reset)
qed

lemma chat_inv_clear_settled:
  assumes "chat_inv s"
  shows "chat_inv (chat_step s (ClearSettled i r))"
    and "i < length (requests s) \<Longrightarrow> requests s ! i = ClearChat \<Longrightarrow>
         \<not> sessionActive s \<and> inactivity_timers (chat_step s (ClearSettled i r)) = []"
proof -
  {
    assume i: "i < length (requests s)" and c: "requests s ! i = ClearChat"
    with filter_drop_nth [of i "requests s" "\<lambda>r. r = ClearChat"]
    have cnt: "length (filter (\<lambda>r. r = ClearChat) (requests s)) =
        length (filter (\<lambda>r. r = ClearChat) (requests (drop_request i s))) + 1"
      by (simp add: drop_request_def)
    with assms have na: "\<not> sessionActive s" and z: "in_progress (drop_request i s) = 0"
      and none: "inactivity_timers s = []"
      by (auto simp: chat_inv_def in_progress_def drop_request_def split: if_splits)
    have step: "chat_step s (ClearSettled i r) =
        (clearConversation_settled r (drop_request i s))\<lparr>sessionActive := True, greeted := False\<rparr>"
      using i c by (simp add: handleSessionTimeout_settled_def)
    have core: "timers (clearConversation_settled r (drop_request i s)) = timers s"
      "requests (clearConversation_settled r (drop_request i s)) = requests (drop_request i s)"
      "last_timer (clearConversation_settled r (drop_request i s)) = last_timer s"
      "sessionTimeout (clearConversation_settled r (drop_request i s)) = sessionTimeout s"
      by (simp_all add: clearConversation_settled_def drop_request_def split: clear_result.splits)
    from none core have n2: "inactivity_timers (chat_step s (ClearSettled i r)) = []"
      unfolding step by (simp add: inactivity_timers_def)
    from z core have z2: "in_progress (chat_step s (ClearSettled i r)) = 0"
      unfolding step by (simp add: in_progress_def drop_request_def)
    from assms core z2 have "chat_inv (chat_step s (ClearSettled i r))"
      unfolding chat_inv_def step by simp
    note this na n2
  }
  note main = this
  show "chat_inv (chat_step s (ClearSettled i r))"
    using main(1) assms by (cases "i < length (requests s) \<and> requests s ! i = ClearChat") auto
  show "i < length (requests s) \<Longrightarrow> requests s ! i = ClearChat \<Longrightarrow>
         \<not> sessionActive s \<and> inactivity_timers (chat_step s (ClearSettled i r)) = []"
    using main(2,3) by blast
qed

lemma chat_inv_step: "chat_inv s \<Longrightarrow> chat_inv (chat_step s e)"
proof (cases e)
  case (VoiceFinal t)
  assume "chat_inv s"
  with chat_inv_setTimeout [of "s\<lparr>input_value := t\<rparr>" AutoSubmit 500] VoiceFinal
  show ?thesis by simp
qed (simp_all add: chat_inv_chatBtn_click closeBtn_click_def monitorUserActivity_def
       chat_inv_monitor
       chat_inv_sendMessage chat_inv_timer_fired chat_inv_send_settled
       chat_inv_clear_settled(1) del: chat_step.simps(10,11,12))

lemma chat_inv_run: "chat_inv s \<Longrightarrow> chat_inv (chat_run s evs)"
  unfolding chat_run_def by (induction evs arbitrary: s) (simp_all add: chat_inv_step)

lemma reset_inactive_eq:
  "\<not> sessionActive s \<Longrightarrow> sessionActive (resetInactivityTimer s) = False"
  by (simp add: reset_inactive)

lemma inactivity_subset_clear:
  "set (inactivity_timers (clearTimeout tid s)) \<subseteq> set (inactivity_timers s)"
  by (auto simp: inactivity_timers_def clearTimeout_def)

lemma sessionActive_clearTimeout [simp]:
  "sessionActive (clearTimeout tid s) = sessionActive s"
  by (simp add: clearTimeout_def)

lemma inactivity_setTimeout_other:
  "kind \<noteq> Inactivity \<Longrightarrow>
   inactivity_timers (snd (setTimeout kind ms s)) = inactivity_timers s"
  by (simp add: inactivity_timers_def setTimeout_def Let_def)

lemma sessionActive_setTimeout [simp]:
  "sessionActive (snd (setTimeout kind ms s)) = sessionActive s"
  by (simp add: setTimeout_def Let_def)

lemma sendMessage_inactive:
  assumes "\<not> sessionActive s"
  shows "set (inactivity_timers (sendMessage s)) \<subseteq> set (inactivity_timers s) \<and>
         \<not> sessionActive (sendMessage s)"
proof (cases "trim (input_value s) = []")
  case True
  with assms show ?thesis by (simp add: sendMessage_def)
next
  case False
  with reset_inactive [OF assms] show ?thesis
    by (simp add: sendMessage_def Let_def)
qed

lemma toggle_inactivity:
  "inactivity_timers (chatBtn_toggle s) = inactivity_timers s"
  "sessionActive (chatBtn_toggle s) = sessionActive s"
  by (simp_all add: chatBtn_toggle_def Let_def inactivity_setTimeout_other)

lemma chatBtn_timer_inactive:
  "\<not> sessionActive s \<Longrightarrow>
   set (inactivity_timers (chatBtn_timer s)) \<subseteq> set (inactivity_timers s) \<and>
   \<not> sessionActive (chatBtn_timer s)"
  using reset_inactive [of s] inactivity_subset_clear [of _ s]
  by (auto simp: chatBtn_timer_def split: option.splits)

lemma reset_event_inactive:
  assumes "\<not> sessionActive s" and "reset_event e"
  shows "set (inactivity_timers (chat_step s e)) \<subseteq> set (inactivity_timers s) \<and>
         \<not> sessionActive (chat_step s e)"
proof (cases e)
  case ChatBtnClick
  from assms(1) have "\<not> sessionActive (chatBtn_toggle s)" by (simp add: toggle_inactivity)
  from chatBtn_timer_inactive [OF this] ChatBtnClick show ?thesis
    by (simp add: chatBtn_click_def toggle_inactivity)
next
  case ChatBoxClick
  with assms show ?thesis by (simp add: monitor_def)
next
  case SendBtnClick
  with sendMessage_inactive [OF assms(1)] show ?thesis by (simp add: monitor_def)
next
  case EnterKey
  with sendMessage_inactive [OF assms(1)] show ?thesis by simp
next
  case (Typed v)
  with assms show ?thesis by (simp add: monitor_def)
qed (use assms in simp_all)

lemma no_reset_keeps_quiet:
  assumes "inactivity_timers s = []" and "\<not> calls_reset s e"
  shows "inactivity_timers (chat_step s e) = []"
proof (cases e)
  case (TimerFired tid)
  show ?thesis
  proof (cases "find (\<lambda>t. fst t = tid) (timers s)")
    case None
    with assms TimerFired show ?thesis by simp
  next
    case (Some t)
    then have t: "t \<in> set (timers s)" by (auto dest: find_timer)
    with assms(1) have ni: "fst (snd t) \<noteq> Inactivity"
      by (auto simp: inactivity_timers_def filter_empty_conv)
    from assms(2) TimerFired Some have na: "fst (snd t) \<noteq> AutoSubmit" by simp
    from assms(1) inactivity_subset_clear [of tid s]
    have c: "inactivity_timers (clearTimeout tid s) = []" by auto
    from ni na c TimerFired Some show ?thesis
      by (cases "fst (snd t)")
         (simp_all add: handleSessionTimeout_delayed_def clearConversation_def)
  qed
next
  case (VoiceFinal t)
  with assms show ?thesis by (simp add: inactivity_setTimeout_other)
next
  case (ClearSettled i r)
  with assms show ?thesis
    by (simp add: handleSessionTimeout_settled_def clearConversation_settled_def
          drop_request_def inactivity_timers_def split: clear_result.splits)
next
  case (SendSettled i r)
  with assms show ?thesis
    by (cases r) (simp_all add: sendMessage_settled_def drop_request_def)
qed (use assms in \<open>simp_all add: closeBtn_click_def monitorUserActivity_def\<close>)

lemmas chat_eval =
  chat_run_def chat_init_def monitor_def chatBtn_click_def chatBtn_toggle_def
  chatBtn_timer_def closeBtn_click_def resetInactivityTimer_def setTimeout_def
  clearTimeout_def handleSessionTimeout_def handleSessionTimeout_delayed_def
  clearConversation_def monitorUserActivity_def
  handleSessionTimeout_settled_def clearConversation_settled_def drop_request_def
  inactivity_timers_def Let_def

lemma find_fresh:
  "\<forall>t \<in> set ts. fst t \<noteq> tid \<Longrightarrow>
   find (\<lambda>t. fst t = tid) (ts @ [(tid, k, ms)]) = Some (tid, k, ms)"
  by (induction ts) auto

lemma timeout_phase1:
  assumes "find (\<lambda>t. fst t = tid) (timers s) = Some (tid, Inactivity, ms)"
  shows "chat_step s (TimerFired tid) = handleSessionTimeout (clearTimeout tid s)"
    and "sessionActive (chat_step s (TimerFired tid)) = False"
    and "transcript (chat_step s (TimerFired tid)) = transcript s @ [farewell_message (clock s)]"
    and "timers (chat_step s (TimerFired tid)) =
           filter (\<lambda>t. fst t \<noteq> tid) (timers s) @ [(Suc (last_timer s), FarewellDelay, 2000)]"
    and "requests (chat_step s (TimerFired tid)) = requests s"
    and "greeted (chat_step s (TimerFired tid)) = greeted s"
    and "last_timer (chat_step s (TimerFired tid)) = Suc (last_timer s)"
  using assms
  by (simp_all add: handleSessionTimeout_def setTimeout_def clearTimeout_def Let_def
        addMessage_def farewell_message_def)

lemma timeout_phase2:
  assumes "find (\<lambda>t. fst t = fid) (timers s) = Some (fid, FarewellDelay, ms)"
  shows "requests (chat_step s (TimerFired fid)) = requests s @ [ClearChat]"
    and "sessionActive (chat_step s (TimerFired fid)) = sessionActive s"
    and "greeted (chat_step s (TimerFired fid)) = greeted s"
    and "transcript (chat_step s (TimerFired fid)) = transcript s"
  using assms
  by (simp_all add: handleSessionTimeout_delayed_def clearConversation_def clearTimeout_def)

lemma timeout_phase3:
  assumes "i < length (requests s)" and "requests s ! i = ClearChat"
  shows "sessionActive (chat_step s (ClearSettled i r)) = True"
    and "greeted (chat_step s (ClearSettled i r)) = False"
    and "requests (chat_step s (ClearSettled i r)) = take i (requests s) @ drop (Suc i) (requests s)"
  using assms
  by (simp_all add: handleSessionTimeout_settled_def clearConversation_settled_def
        drop_request_def split: clear_result.splits)

lemma open_greets:
  assumes "chat_inv s" and "\<not> chat_open s" and "\<not> greeted s"
  shows "chat_open (chat_step s ChatBtnClick) \<and> greeted (chat_step s ChatBtnClick) \<and>
         (Suc (last_timer s), Greeting, 300) \<in> set (timers (chat_step s ChatBtnClick))"
proof -
  from assms(1) have "\<forall>tid. sessionTimeout s = Some tid \<longrightarrow> tid \<noteq> Suc (last_timer s)"
    by (auto simp: chat_inv_def)
  with assms(2,3) show ?thesis
    by (auto simp: chatBtn_click_def chatBtn_toggle_def chatBtn_timer_def setTimeout_def
          clearTimeout_def Let_def split: option.splits)
qed

lemma find_distinct:
  "distinct (map fst ts) \<Longrightarrow> t \<in> set ts \<Longrightarrow> find (\<lambda>u. fst u = fst t) ts = Some t"
  by (induction ts) (auto simp: image_iff)

lemma reset_keeps_display [simp]:
  "chat_open (resetInactivityTimer s) = chat_open s"
  "greeted (resetInactivityTimer s) = greeted s"
  by (simp_all add: resetInactivityTimer_def clearTimeout_def setTimeout_def Let_def
        split: option.splits)

lemma close_keeps_ungreeted:
  assumes "c = ChatBtnClick \<or> c = CloseBtnClick" and "chat_open s"
  shows "\<not> chat_open (chat_step s c)" and "greeted (chat_step s c) = greeted s"
  using assms
  by (auto simp: chatBtn_click_def chatBtn_toggle_def chatBtn_timer_def closeBtn_click_def)

lemma timeout_keeps_display:
  "chat_open (chat_step s (TimerFired tid)) = chat_open s"
  "chat_open (chat_step s (ClearSettled i r)) = chat_open s"
proof -
  show "chat_open (chat_step s (TimerFired tid)) = chat_open s"
  proof (cases "find (\<lambda>t. fst t = tid) (timers s)")
    case None
    then show ?thesis by simp
  next
    case (Some t)
    then show ?thesis
      by (cases "fst (snd t)")
         (simp_all add: clearTimeout_def handleSessionTimeout_def setTimeout_def Let_def
            handleSessionTimeout_delayed_def clearConversation_def sendMessage_def
            showTypingIndicator_def)
  qed
  show "chat_open (chat_step s (ClearSettled i r)) = chat_open s"
    by (simp add: handleSessionTimeout_settled_def clearConversation_settled_def
          drop_request_def split: clear_result.splits)
qed

lemma greeting_fires:
  assumes "chat_inv s" and "(gid, Greeting, ms) \<in> set (timers s)"
  shows "transcript (chat_step s (TimerFired gid)) = transcript s @ [greeting_message (clock s)]"
proof -
  from assms(1) have "distinct (map fst (timers s))" by (simp add: chat_inv_def)
  from find_distinct [OF this assms(2)]
  have "find (\<lambda>u. fst u = gid) (timers s) = Some (gid, Greeting, ms)" by simp
  then show ?thesis
    by (simp add: clearTimeout_def addMessage_def greeting_message_def Let_def)
qed

lemma reopen_greets:
  assumes "chat_inv s" and "\<not> greeted s" and "c = ChatBtnClick \<or> c = CloseBtnClick"
    and s4: "s4 = (if chat_open s then chat_step s c else s)"
    and s5: "s5 = chat_step s4 ChatBtnClick"
  shows "\<not> chat_open s4 \<and> \<not> greeted s4 \<and> chat_open s5 \<and> greeted s5 \<and>
         (Suc (last_timer s4), Greeting, 300) \<in> set (timers s5) \<and>
         transcript (chat_step s5 (TimerFired (Suc (last_timer s4)))) =
           transcript s5 @ [greeting_message (clock s5)]"
proof -
  have inv4: "chat_inv s4" unfolding s4 using assms(1) by (simp add: chat_inv_step)
  have c4: "\<not> chat_open s4" and g4: "\<not> greeted s4"
    unfolding s4 using assms(2) close_keeps_ungreeted [OF assms(3)] by auto
  from open_greets [OF inv4 c4 g4] have o: "chat_open s5" "greeted s5"
    "(Suc (last_timer s4), Greeting, 300) \<in> set (timers s5)"
    unfolding s5 by simp_all
  have "chat_inv s5" unfolding s5 using inv4 by (rule chat_inv_step)
  from greeting_fires [OF this o(3)] c4 g4 o show ?thesis by simp
qed

lemma user_neq_bot [simp]: "user \<noteq> bot"
  by (simp add: user_def bot_def js_def)

subsection \<open>Properties of the chat session\<close>

text \<open>
  Claim C2. \<open>addMessage\<close> passes the text through \<open>markdownToHtml\<close> exactly when the sender
  is \<open>bot\<close>; for every other sender it assigns the text itself to \<open>innerHTML\<close>, so the
  browser parses what the user typed as markup. The run types \<open><b>x</b>\<close> and presses Enter:
  the string reaches \<open>innerHTML\<close> unchanged. Only the timestamp is set through
  \<open>textContent\<close>.
\<close>

theorem addMessage_user_text_is_markup:
  "transcript (addMessage (Some t) sender s) =
     transcript s @
     [Message \<lparr>msg_sender = sender,
        avatar_src = (if sender = bot then js ''/static/img/bot.png''
                      else js ''/static/img/user.png''),
        msg_content = InnerHTML (if sender = bot then markdownToHtml (Some t) else t),
        msg_time = TextContent (clock s),
        avatar_first = (sender = bot)\<rparr>] \<and>
   transcript (chat_run chat_init [Typed (js ''<b>x</b>''), EnterKey]) =
     [Message \<lparr>msg_sender = user, avatar_src = js ''/static/img/user.png'',
        msg_content = InnerHTML (js ''<b>x</b>''), msg_time = TextContent [],
        avatar_first = False\<rparr>,
      TypingIndicator]"
proof
  show "transcript (addMessage (Some t) sender s) =
     transcript s @
     [Message \<lparr>msg_sender = sender,
        avatar_src = (if sender = bot then js ''/static/img/bot.png''
                      else js ''/static/img/user.png''),
        msg_content = InnerHTML (if sender = bot then markdownToHtml (Some t) else t),
        msg_time = TextContent (clock s),
        avatar_first = (sender = bot)\<rparr>]"
    by (simp add: addMessage_def Let_def)
  have tr: "trim (js ''<b>x</b>'') = js ''<b>x</b>''" by code_simp
  have ne: "js ''<b>x</b>'' \<noteq> []" by (simp add: js_def)
  show "transcript (chat_run chat_init [Typed (js ''<b>x</b>''), EnterKey]) =
     [Message \<lparr>msg_sender = user, avatar_src = js ''/static/img/user.png'',
        msg_content = InnerHTML (js ''<b>x</b>''), msg_time = TextContent [],
        avatar_first = False\<rparr>,
      TypingIndicator]"
    by (simp add: chat_run_def chat_init_def monitor_def sendMessage_def tr ne
        resetInactivityTimer_def setTimeout_def addMessage_def showTypingIndicator_def
        Let_def)
qed

text \<open>
  Claim C6. In a state the widget can reach, let the inactivity timer \<open>tid\<close> fire, then the
  timer the handler has set, then let the fetch the handler has issued settle with any
  result \<open>r\<close>. After the first step \<open>sessionActive\<close> is false, the farewell of the bot is the
  last entry of the transcript, a timeout of 2000 ms is pending and no request has been
  added. After the second step the request to clear the conversation is the one added, and
  \<open>sessionActive\<close> is still false. After the third step \<open>sessionActive\<close> is true and
  \<open>greeted\<close> is false, and the chat box is open or closed as it was when the timer fired.
  From there the next open greets again: once the chat box is closed (by the chat button or
  by the close button, when it was open), it is closed and \<open>greeted\<close> is still false, and
  a click on the chat button opens it, sets \<open>greeted\<close> and sets a timeout of 300 ms that,
  when it fires, appends the greeting of the bot to the transcript.
\<close>

theorem handleSessionTimeout_sequence:
  assumes "s = chat_run chat_init evs"
    and "find (\<lambda>t. fst t = tid) (timers s) = Some (tid, Inactivity, ms)"
  shows "(let s1 = chat_step s (TimerFired tid);
              s2 = chat_step s1 (TimerFired (Suc (last_timer s)));
              s3 = chat_step s2 (ClearSettled (length (requests s)) r)
          in sessionActive s1 = False \<and>
             transcript s1 = transcript s @ [farewell_message (clock s)] \<and>
             timers s1 = filter (\<lambda>t. fst t \<noteq> tid) (timers s) @
                           [(Suc (last_timer s), FarewellDelay, 2000)] \<and>
             requests s1 = requests s \<and> greeted s1 = greeted s \<and>
             sessionActive s2 = False \<and> requests s2 = requests s @ [ClearChat] \<and>
             transcript s2 = transcript s1 \<and> greeted s2 = greeted s \<and>
             sessionActive s3 = True \<and> greeted s3 = False \<and> requests s3 = requests s \<and>
             chat_open s3 = chat_open s \<and>
             (let s4 = (if chat_open s3 then chat_step s3 ChatBtnClick else s3);
                  s5 = chat_step s4 ChatBtnClick
              in \<not> chat_open s4 \<and> \<not> greeted s4 \<and> chat_open s5 \<and> greeted s5 \<and>
                 (Suc (last_timer s4), Greeting, 300) \<in> set (timers s5) \<and>
                 transcript (chat_step s5 (TimerFired (Suc (last_timer s4)))) =
                   transcript s5 @ [greeting_message (clock s5)]) \<and>
             (let s4 = (if chat_open s3 then chat_step s3 CloseBtnClick else s3);
                  s5 = chat_step s4 ChatBtnClick
              in \<not> chat_open s4 \<and> \<not> greeted s4 \<and> chat_open s5 \<and> greeted s5 \<and>
                 (Suc (last_timer s4), Greeting, 300) \<in> set (timers s5) \<and>
                 transcript (chat_step s5 (TimerFired (Suc (last_timer s4)))) =
                   transcript s5 @ [greeting_message (clock s5)]))"
proof -
  define s1 where "s1 = chat_step s (TimerFired tid)"
  define s2 where "s2 = chat_step s1 (TimerFired (Suc (last_timer s)))"
  define s3 where "s3 = chat_step s2 (ClearSettled (length (requests s)) r)"
  from assms(1) have inv: "chat_inv s" by (simp add: chat_inv_init chat_inv_run)
  then have "chat_inv s1" unfolding s1_def by (rule chat_inv_step)
  then have "chat_inv s2" unfolding s2_def by (rule chat_inv_step)
  then have inv3: "chat_inv s3" unfolding s3_def by (rule chat_inv_step)
  note p1 = timeout_phase1 [OF assms(2), folded s1_def]
  from inv have "\<forall>t \<in> set (filter (\<lambda>t. fst t \<noteq> tid) (timers s)). fst t \<noteq> Suc (last_timer s)"
    by (auto simp: chat_inv_def)
  then have f2: "find (\<lambda>t. fst t = Suc (last_timer s)) (timers s1) =
      Some (Suc (last_timer s), FarewellDelay, 2000)"
    unfolding p1(4) by (rule find_fresh)
  note p2 = timeout_phase2 [OF f2, folded s2_def]
  from p2(1) p1(5) have r2: "requests s2 = requests s @ [ClearChat]" by simp
  then have i: "length (requests s) < length (requests s2)"
    and c: "requests s2 ! length (requests s) = ClearChat" by simp_all
  note p3 = timeout_phase3 [OF i c, of r, folded s3_def]
  from p3(3) r2 have r3: "requests s3 = requests s" by simp
  have d: "chat_open s3 = chat_open s"
    unfolding s3_def s2_def s1_def by (simp only: timeout_keeps_display)
  from p3(2) have ng: "\<not> greeted s3" by simp
  note ga = reopen_greets [OF inv3 ng disjI1 [OF refl] refl refl]
  note gb = reopen_greets [OF inv3 ng disjI2 [OF refl] refl refl]
  from p1 p2 p3 r2 r3 d ga gb show ?thesis
    unfolding Let_def s1_def [symmetric] s2_def [symmetric] s3_def [symmetric] by simp
qed

theorem handleSessionTimeout_sequence_witness:
  "chat_open idle_open \<and>
   find (\<lambda>t. fst t = 2) (timers idle_open) = Some (2, Inactivity, INACTIVITY_TIMEOUT) \<and>
   \<not> sessionActive (chat_step idle_open (TimerFired 2)) \<and>
   timers (chat_step idle_open (TimerFired 2)) = [(1, Greeting, 300), (3, FarewellDelay, 2000)] \<and>
   requests (chat_step idle_open (TimerFired 2)) = [] \<and>
   requests (chat_step (chat_step idle_open (TimerFired 2)) (TimerFired 3)) = [ClearChat] \<and>
   \<not> sessionActive (chat_step (chat_step idle_open (TimerFired 2)) (TimerFired 3)) \<and>
   sessionActive timed_out \<and> \<not> greeted timed_out \<and> chat_open timed_out \<and>
   \<not> chat_open (chat_step timed_out ChatBtnClick) \<and>
   greeted (chat_step (chat_step timed_out ChatBtnClick) ChatBtnClick) \<and>
   (5, Greeting, 300) \<in> set (timers (chat_step (chat_step timed_out ChatBtnClick) ChatBtnClick)) \<and>
   transcript (chat_step (chat_step (chat_step timed_out ChatBtnClick) ChatBtnClick) (TimerFired 5)) =
     transcript (chat_step (chat_step timed_out ChatBtnClick) ChatBtnClick) @
     [greeting_message (clock (chat_step (chat_step timed_out ChatBtnClick) ChatBtnClick))] \<and>
   \<not> chat_open (chat_step timed_out CloseBtnClick) \<and>
   (4, Greeting, 300) \<in> set (timers (chat_step (chat_step timed_out CloseBtnClick) ChatBtnClick))"
proof -
  let ?s1 = "chat_step idle_open (TimerFired 2)"
  let ?s2 = "chat_step ?s1 (TimerFired 3)"
  have tm: "timers idle_open = [(1, Greeting, 300), (2, Inactivity, INACTIVITY_TIMEOUT)]"
    and lt: "last_timer idle_open = 2" and rq: "requests idle_open = []"
    and op: "chat_open idle_open"
    by (simp_all add: idle_open_def chat_eval)
  from tm have f: "find (\<lambda>t. fst t = 2) (timers idle_open) = Some (2, Inactivity, INACTIVITY_TIMEOUT)"
    by simp
  have n: "Suc 2 = 3" "Suc 3 = 4" "Suc 4 = 5" by simp_all
  note inst = handleSessionTimeout_sequence [OF idle_open_def f, of "ClearReplied True",
      unfolded Let_def lt rq list.size n, folded timed_out_def]
  from inst op have a3: "sessionActive timed_out" and g3: "\<not> greeted timed_out"
    and o3: "chat_open timed_out"
    by (simp_all del: chat_step.simps)
  have l3: "last_timer timed_out = 3"
    using f tm lt rq
    by (simp add: timed_out_def handleSessionTimeout_def handleSessionTimeout_delayed_def
          clearConversation_def handleSessionTimeout_settled_def clearConversation_settled_def
          drop_request_def setTimeout_def clearTimeout_def Let_def)
  have l4a: "last_timer (chat_step timed_out ChatBtnClick) = 4"
    using a3 o3 l3
    by (simp add: chatBtn_click_def chatBtn_toggle_def chatBtn_timer_def
          resetInactivityTimer_def setTimeout_def clearTimeout_def Let_def split: option.splits)
  have l4b: "last_timer (chat_step timed_out CloseBtnClick) = 3"
    using l3 by (simp add: closeBtn_click_def)
  have fl: "filter (\<lambda>t. fst t \<noteq> 2) (timers idle_open) = [(1, Greeting, 300)]"
    by (simp add: tm)
  from inst have t1: "timers ?s1 = [(1, Greeting, 300), (3, FarewellDelay, 2000)]"
    unfolding fl by (simp del: chat_step.simps)
  from inst have r1: "requests ?s1 = []" and na1: "\<not> sessionActive ?s1"
    and r2: "requests ?s2 = [ClearChat]" and na2: "\<not> sessionActive ?s2"
    by (simp_all del: chat_step.simps)
  from inst o3 have ca: "\<not> chat_open (chat_step timed_out ChatBtnClick)"
    and ga: "greeted (chat_step (chat_step timed_out ChatBtnClick) ChatBtnClick)"
    and ta: "(5, Greeting, 300) \<in> set (timers (chat_step (chat_step timed_out ChatBtnClick) ChatBtnClick))"
    and ma: "transcript (chat_step (chat_step (chat_step timed_out ChatBtnClick) ChatBtnClick) (TimerFired 5)) =
       transcript (chat_step (chat_step timed_out ChatBtnClick) ChatBtnClick) @
       [greeting_message (clock (chat_step (chat_step timed_out ChatBtnClick) ChatBtnClick))]"
    and cb: "\<not> chat_open (chat_step timed_out CloseBtnClick)"
    and tb: "(4, Greeting, 300) \<in> set (timers (chat_step (chat_step timed_out CloseBtnClick) ChatBtnClick))"
    by (simp_all add: l4a l4b n del: chat_step.simps)
  from op f na1 t1 r1 r2 na2 a3 g3 o3 ca ga ta ma cb tb show ?thesis by blast
qed

text \<open>
  Claim C9, as the code has it. In a state \<open>s\<close> the widget can reach in which
  \<open>sessionActive\<close> is false, no inactivity timer is pending (so the handler of the timeout
  cannot run a second time), and none is pending after a reset event, which leaves
  \<open>sessionActive\<close> false. In any state \<open>s'\<close> in which \<open>sessionActive\<close> is false a reset event
  adds no inactivity timer. When the fetch that clears the conversation settles,
  \<open>sessionActive\<close> was false and becomes true, and no inactivity timer is pending; and from
  a state with none pending, none is pending after any event whose handler does not call
  \<open>resetInactivityTimer\<close>: any event but a reset event, the automatic submit of a voice
  message, and the arrival of a reply with \<open>success\<close> to a message.
\<close>

theorem inactivity_timer_quiet_during_clear:
  assumes "s = chat_run chat_init evs"
  shows "(\<not> sessionActive s \<longrightarrow>
            inactivity_timers s = [] \<and>
            (reset_event e \<longrightarrow>
               inactivity_timers (chat_step s e) = [] \<and> \<not> sessionActive (chat_step s e))) \<and>
         (\<not> sessionActive s' \<and> reset_event e \<longrightarrow>
            set (inactivity_timers (chat_step s' e)) \<subseteq> set (inactivity_timers s')) \<and>
         (i < length (requests s) \<and> requests s ! i = ClearChat \<longrightarrow>
            \<not> sessionActive s \<and>
            sessionActive (chat_step s (ClearSettled i r)) \<and>
            inactivity_timers (chat_step s (ClearSettled i r)) = []) \<and>
         (inactivity_timers s' = [] \<and> \<not> calls_reset s' e' \<longrightarrow>
            inactivity_timers (chat_step s' e') = [])"
proof -
  from assms have inv: "chat_inv s" by (simp add: chat_inv_init chat_inv_run)
  have quiet: "inactivity_timers s = []" if "\<not> sessionActive s"
    using inv that by (auto simp: chat_inv_def split: if_splits)
  have during: "inactivity_timers (chat_step s e) = [] \<and> \<not> sessionActive (chat_step s e)"
    if "\<not> sessionActive s" "reset_event e"
    using reset_event_inactive [OF that] quiet [OF that(1)] by simp
  have never: "set (inactivity_timers (chat_step s' e)) \<subseteq> set (inactivity_timers s')"
    if "\<not> sessionActive s'" "reset_event e"
    using reset_event_inactive [OF that] by simp
  have after: "\<not> sessionActive s \<and> sessionActive (chat_step s (ClearSettled i r)) \<and>
      inactivity_timers (chat_step s (ClearSettled i r)) = []"
    if "i < length (requests s)" "requests s ! i = ClearChat"
    using chat_inv_clear_settled(2) [OF inv that] that
    by (simp add: handleSessionTimeout_settled_def)
  from quiet during never after no_reset_keeps_quiet show ?thesis by blast
qed

theorem inactivity_timer_quiet_during_clear_witness:
  "\<not> sessionActive (chat_run chat_init timeout_trace) \<and>
   timers (chat_run chat_init timeout_trace) = [(1, Greeting, 300), (3, FarewellDelay, 2000)] \<and>
   reset_event (Typed (js ''x'')) \<and>
   inactivity_timers (chat_step (chat_run chat_init timeout_trace) (Typed (js ''x''))) = [] \<and>
   \<not> sessionActive (chat_step (chat_run chat_init timeout_trace) (Typed (js ''x''))) \<and>
   requests (chat_run chat_init (timeout_trace @ [TimerFired 3])) = [ClearChat] \<and>
   sessionActive (chat_step (chat_run chat_init (timeout_trace @ [TimerFired 3]))
      (ClearSettled 0 (ClearReplied True))) \<and>
   inactivity_timers (chat_step (chat_run chat_init (timeout_trace @ [TimerFired 3]))
      (ClearSettled 0 (ClearReplied True))) = [] \<and>
   \<not> calls_reset (chat_run chat_init timeout_trace) CloseBtnClick \<and>
   inactivity_timers (chat_step (chat_run chat_init timeout_trace) CloseBtnClick) = []"
proof -
  let ?s = "chat_run chat_init timeout_trace"
  let ?t = "chat_run chat_init (timeout_trace @ [TimerFired 3])"
  have a: "\<not> sessionActive ?s"
    by (simp add: timeout_trace_def chat_eval)
  have tm: "timers ?s = [(1, Greeting, 300), (3, FarewellDelay, 2000)]"
    by (simp add: timeout_trace_def chat_eval)
  have rq: "requests ?t = [ClearChat]"
    by (simp add: timeout_trace_def chat_eval)
  have re: "reset_event (Typed (js ''x''))" by simp
  have nc: "\<not> calls_reset ?s CloseBtnClick" by simp
  note one = inactivity_timer_quiet_during_clear
    [OF refl, of timeout_trace "Typed (js ''x'')" ?s 0 "ClearReplied True" CloseBtnClick]
  note two = inactivity_timer_quiet_during_clear
    [OF refl, of "timeout_trace @ [TimerFired 3]" "Typed (js ''x'')" ?s 0 "ClearReplied True"
       CloseBtnClick]
  from one a re have q: "inactivity_timers ?s = []"
    and d: "inactivity_timers (chat_step ?s (Typed (js ''x''))) = []"
      "\<not> sessionActive (chat_step ?s (Typed (js ''x'')))"
    by blast+
  from one q nc have k: "inactivity_timers (chat_step ?s CloseBtnClick) = []" by blast
  from rq have "0 < length (requests ?t) \<and> requests ?t ! 0 = ClearChat" by simp
  with two have c: "sessionActive (chat_step ?t (ClearSettled 0 (ClearReplied True)))"
      "inactivity_timers (chat_step ?t (ClearSettled 0 (ClearReplied True))) = []"
    by blast+
  from a tm re d rq c nc k show ?thesis by blast
qed

text \<open>
  Claim C9 as it is stated fails in its last part: an inactivity timer can be pending after
  the clear with no reset event since. A message typed and sent during the farewell is sent
  all the same; its reply arrives after the clear has set \<open>sessionActive\<close>, and the handler
  of the reply calls \<open>resetInactivityTimer\<close>, which sets the timer.
\<close>

theorem inactivity_timer_after_clear_counterexample:
  "sessionActive (chat_run chat_init late_reply_trace) \<and>
   inactivity_timers (chat_run chat_init late_reply_trace) = [] \<and>
   requests (chat_run chat_init late_reply_trace) = [SendMessage (js ''x'')] \<and>
   \<not> reset_event (SendSettled 0 (Replied (Some (js ''ok'')))) \<and>
   inactivity_timers
     (chat_step (chat_run chat_init late_reply_trace) (SendSettled 0 (Replied (Some (js ''ok''))))) =
     [(4, Inactivity, INACTIVITY_TIMEOUT)]"
proof -
  have tr: "trim (js ''x'') = js ''x''" by code_simp
  have ne: "js ''x'' \<noteq> []" by (simp add: js_def)
  show ?thesis
    by (simp add: late_reply_trace_def timeout_trace_def chat_eval sendMessage_def
          sendMessage_settled_def tr ne)
qed

end
